theory Spec2Isabelle
  imports Main "HOL-Library.Multiset"
begin

section \<open>The Codenames turn engine (codenames/game.py)\<close>

text \<open>
  The development embeds the class \<open>Game\<close> of \<open>codenames/game.py\<close>: the guess resolution
  \<open>_accept_guess\<close> and the turn loop \<open>run\<close>. Display, logging and timing code does not
  touch the state the engine decides on and is left out.

  The four players are objects the engine calls; what they answer is not fixed by the
  engine. Their answers are therefore inputs: the list of clues the codemasters give, the
  list of answers \<open>get_answer()\<close> returns and the list of values \<open>keep_guessing()\<close> returns,
  each in the order in which the engine obtains them. The engine chooses the team's player
  from \<open>game_condition\<close>; the team shows in the tag of every history entry. A loop that
  needs an answer when the list is empty stops with \<open>InputExhausted\<close>. The players are
  taken not to write to the board list and the history list that the engine hands them.
\<close>

subsection \<open>Python strings and lists\<close>

text \<open>
  A string is a Python \<open>str\<close>, given by its UTF-8 bytes; two strings are equal when
  their bytes are. Line 341 normalises an answer with \<open>str.upper()\<close> and \<open>str.strip()\<close>.
  These are functions of Python's library, defined on all of Unicode, and no part of
  this program. The engine therefore takes the normaliser as its argument \<open>upper_strip\<close>
  (the function \<open>s \<mapsto> s.upper().strip()\<close>), and what is proved of the engine is proved
  for every such function. The one property of Python's function that a proof needs is
  a hypothesis where it is used (\<open>upper_cased\<close> below).
\<close>

text \<open>\<open>list.index(x)\<close>: the first position of \<open>x\<close>, or no position (Python raises ValueError).\<close>

fun index_of :: "'a list \<Rightarrow> 'a \<Rightarrow> nat option" where
  "index_of [] x = None"
| "index_of (y # ys) x = (if y = x then Some 0 else map_option Suc (index_of ys x))"

subsection \<open>The game state\<close>

datatype GameCondition = RED_TURN | BLUE_TURN | RED_WIN | BLUE_WIN

text \<open>
  An entry of \<open>move_history\<close> is a Python list: \<open>[team + "_Codemaster", clue, clue_num]\<close> or
  \<open>[team + "_Guesser", guess_answer, words_on_board[index], keep_guessing]\<close>.
\<close>

datatype move =
    Clue_move string string int
  | Guess_move string string string bool

text \<open>
  The exceptions that leave the engine. \<open>ValueError\<close> is raised by \<open>list.index\<close>,
  \<open>IndexError\<close> by a list read or store out of range, \<open>AssertionError\<close> by the
  \<open>assert\<close> of line 106. \<open>InvalidGuessError\<close> is the error kind the specification names;
  no statement of the source raises it. \<open>InputExhausted\<close> is not a Python exception: the
  list of recorded player answers has run out.
\<close>

datatype error = ValueError | IndexError | AssertionError | InvalidGuessError | InputExhausted

record game =
  words_on_board :: "string list"
  key_grid :: "string list"
  move_history :: "move list"
  single_team :: bool
  num_red_words :: nat
  num_blue_words :: nat
  num_civilian_words :: nat
  num_assassin_words :: nat
  game_winner :: "string option"

text \<open>
  \<open>Game.__init__\<close>, with the results of its two shuffles as arguments: the shuffled word
  pool, of which the first 25 words make the board, and the shuffled key grid. Line 106
  asserts that the pool has no duplicates. Lines 111 to 113 shuffle the list
  \<open>key_grid_unshuffled\<close>, so the key grid is one of its permutations (\<open>shuffled_key\<close>).
\<close>

definition Game_init :: "string list \<Rightarrow> string list \<Rightarrow> bool \<Rightarrow> error + game" where
  "Game_init pool key single =
     (if \<not> distinct pool then Inl AssertionError
      else Inr \<lparr> words_on_board = take 25 pool, key_grid = key, move_history = [],
                 single_team = single, num_red_words = 9, num_blue_words = 8,
                 num_civilian_words = 7, num_assassin_words = 1, game_winner = None \<rparr>)"

definition key_grid_unshuffled :: "string list" where
  "key_grid_unshuffled =
     replicate 9 ''Red'' @ replicate 8 ''Blue'' @ replicate 7 ''Civilian'' @ replicate 1 ''Assassin''"

definition shuffled_key :: "string list \<Rightarrow> bool" where
  "shuffled_key key \<longleftrightarrow> mset key = mset key_grid_unshuffled"

text \<open>The strings a revealed cell shows. No word of a fresh board is one of them.\<close>

definition markers :: "string list" where
  "markers = [''*Red*'', ''*Blue*'', ''*Civilian*'', ''*Assassin*'']"

definition unrevealed :: "string list \<Rightarrow> bool" where
  "unrevealed ws \<longleftrightarrow> list_all (\<lambda>w. w \<notin> set markers) ws"

subsection \<open>\<open>Game._accept_guess\<close>\<close>

text \<open>
  The store \<open>self.words_on_board[guess_index] = marker\<close>; an index out of range raises
  IndexError. The index comes from \<open>list.index\<close> and is never negative.
\<close>

definition set_word :: "game \<Rightarrow> nat \<Rightarrow> string \<Rightarrow> error + game" where
  "set_word g i marker =
     (if i < length (words_on_board g)
      then Inr (g\<lparr>words_on_board := (words_on_board g)[i := marker]\<rparr>)
      else Inl IndexError)"

definition accept_guess :: "game \<Rightarrow> nat \<Rightarrow> GameCondition \<Rightarrow> error + (game \<times> GameCondition)" where
  "accept_guess g guess_index game_condition =
     (if \<not> guess_index < length (key_grid g) then Inl IndexError
      else if key_grid g ! guess_index = ''Red'' then
        (case set_word g guess_index ''*Red*'' of
           Inl e \<Rightarrow> Inl e
         | Inr g' \<Rightarrow>
             if count_list (words_on_board g') ''*Red*'' \<ge> num_red_words g'
             then Inr (g', RED_WIN) else Inr (g', RED_TURN))
      else if key_grid g ! guess_index = ''Blue'' then
        (case set_word g guess_index ''*Blue*'' of
           Inl e \<Rightarrow> Inl e
         | Inr g' \<Rightarrow>
             if count_list (words_on_board g') ''*Blue*'' \<ge> num_blue_words g'
             then Inr (g', BLUE_WIN) else Inr (g', BLUE_TURN))
      else if key_grid g ! guess_index = ''Assassin'' then
        (case set_word g guess_index ''*Assassin*'' of
           Inl e \<Rightarrow> Inl e
         | Inr g' \<Rightarrow>
             if game_condition = RED_TURN then Inr (g', BLUE_WIN) else Inr (g', RED_WIN))
      else
        (case set_word g guess_index ''*Civilian*'' of
           Inl e \<Rightarrow> Inl e
         | Inr g' \<Rightarrow>
             if game_condition = RED_TURN then Inr (g', BLUE_TURN) else Inr (g', RED_TURN)))"

subsection \<open>\<open>Game.run\<close>\<close>

definition current_team :: "GameCondition \<Rightarrow> string" where
  "current_team game_condition = (if game_condition = RED_TURN then ''Red'' else ''Blue'')"

text \<open>Line 323: the clue is appended to the history.\<close>

definition record_clue :: "game \<Rightarrow> string \<Rightarrow> string \<Rightarrow> int \<Rightarrow> game" where
  "record_clue g team clue clue_num =
     g\<lparr>move_history := move_history g @ [Clue_move (team @ ''_Codemaster'') clue clue_num]\<rparr>"

text \<open>Lines 349 and 359: the guess is appended to the history.\<close>

definition record_guess :: "game \<Rightarrow> string \<Rightarrow> string \<Rightarrow> nat \<Rightarrow> bool \<Rightarrow> game" where
  "record_guess g team guess_answer guess_answer_index keep =
     g\<lparr>move_history := move_history g @
         [Guess_move (team @ ''_Guesser'') guess_answer
            (words_on_board g ! guess_answer_index) keep]\<rparr>"

text \<open>Lines 352 to 355: the turn passes to the other team.\<close>

definition pass_turn :: "GameCondition \<Rightarrow> GameCondition" where
  "pass_turn game_condition =
     (if game_condition = RED_TURN then BLUE_TURN
      else if game_condition = BLUE_TURN then RED_TURN
      else game_condition)"

text \<open>Lines 362 and 363: in the single-team version it is always the red team's turn.\<close>

definition force_single :: "game \<Rightarrow> GameCondition \<Rightarrow> GameCondition" where
  "force_single g game_condition =
     (if single_team g \<and> game_condition = BLUE_TURN then RED_TURN else game_condition)"

text \<open>
  One pass through the body of \<open>while keep_guessing\<close> (lines 333 to 363), for the answer
  \<open>guess_answer\<close> of \<open>get_answer()\<close>; \<open>keeps\<close> are the values \<open>keep_guessing()\<close> will return.
  The result is the game object, \<open>game_condition\<close>, the variable \<open>keep_guessing\<close> and the
  values of \<open>keeps\<close> not yet used. The \<open>break\<close> of line 340 leaves the loop as
  \<open>keep_guessing = False\<close> does, and skips the single-team test of line 362.
  \<open>words_in_play\<close> is the same list object as \<open>self.words_on_board\<close>, so the search of
  line 341 reads the current board; \<open>upper_strip answer\<close> is
  \<open>guess_answer.upper().strip()\<close>. An exception carries the game object as it is when
  raised.
\<close>

definition guess_body ::
  "(string \<Rightarrow> string) \<Rightarrow> game \<Rightarrow> GameCondition \<Rightarrow> string \<Rightarrow> string option \<Rightarrow> bool list
     \<Rightarrow> (error \<times> game) + (game \<times> GameCondition \<times> bool \<times> bool list)" where
  "guess_body upper_strip g game_condition team guess_answer keeps =
     (case guess_answer of
        None \<Rightarrow> Inr (g, game_condition, False, keeps)
      | Some answer \<Rightarrow>
          if answer = ''no comparisons'' then Inr (g, game_condition, False, keeps)
          else
            (case index_of (words_on_board g) (upper_strip answer) of
               None \<Rightarrow> Inl (ValueError, g)
             | Some guess_answer_index \<Rightarrow>
                 (case accept_guess g guess_answer_index game_condition of
                    Inl e \<Rightarrow> Inl (e, g)
                  | Inr (g1, game_condition_result) \<Rightarrow>
                      if game_condition = game_condition_result then
                        (case keeps of
                           [] \<Rightarrow> Inl (InputExhausted, g1)
                         | keep_guessing # keeps' \<Rightarrow>
                             let g2 = record_guess g1 team answer guess_answer_index keep_guessing
                             in Inr (g2,
                                     force_single g2
                                       (if \<not> keep_guessing then pass_turn game_condition
                                        else game_condition),
                                     keep_guessing, keeps'))
                      else
                        let g2 = record_guess g1 team answer guess_answer_index False
                        in Inr (g2, force_single g2 game_condition_result, False, keeps))))"

text \<open>
  The loop \<open>while keep_guessing\<close> (lines 331 to 363), entered with \<open>keep_guessing = True\<close>.
  It returns the game object, \<open>game_condition\<close> and the answers not yet used.
\<close>

fun guess_loop ::
  "(string \<Rightarrow> string) \<Rightarrow> game \<Rightarrow> GameCondition \<Rightarrow> string \<Rightarrow> string option list \<Rightarrow> bool list
     \<Rightarrow> (error \<times> game) + (game \<times> GameCondition \<times> string option list \<times> bool list)" where
  "guess_loop upper_strip g game_condition team [] keeps = Inl (InputExhausted, g)"
| "guess_loop upper_strip g game_condition team (guess_answer # answers) keeps =
     (case guess_body upper_strip g game_condition team guess_answer keeps of
        Inl e \<Rightarrow> Inl e
      | Inr (g', game_condition', keep_guessing, keeps') \<Rightarrow>
          if keep_guessing then guess_loop upper_strip g' game_condition' team answers keeps'
          else Inr (g', game_condition', answers, keeps'))"

text \<open>
  The loop of line 298. The codemaster's count is an integer, on which \<open>int(clue_num)\<close>
  is the identity. The result is the game object, \<open>game_condition\<close>, \<open>turn_counter\<close> and
  the inputs not yet used.
\<close>

fun run_loop ::
  "(string \<Rightarrow> string) \<Rightarrow> game \<Rightarrow> GameCondition \<Rightarrow> nat \<Rightarrow> (string \<times> int) list \<Rightarrow> string option list \<Rightarrow> bool list
     \<Rightarrow> (error \<times> game) +
        (game \<times> GameCondition \<times> nat \<times> (string \<times> int) list \<times> string option list \<times> bool list)" where
  "run_loop upper_strip g game_condition turn_counter [] answers keeps =
     (if game_condition \<noteq> BLUE_WIN \<and> game_condition \<noteq> RED_WIN
      then Inl (InputExhausted, g)
      else Inr (g, game_condition, turn_counter, [], answers, keeps))"
| "run_loop upper_strip g game_condition turn_counter ((clue, clue_num) # clues) answers keeps =
     (if game_condition \<noteq> BLUE_WIN \<and> game_condition \<noteq> RED_WIN then
        (case guess_loop upper_strip (record_clue g (current_team game_condition) clue clue_num)
                game_condition (current_team game_condition) answers keeps of
           Inl e \<Rightarrow> Inl e
         | Inr (g', game_condition', answers', keeps') \<Rightarrow>
             run_loop upper_strip g' game_condition' (turn_counter + 1) clues answers' keeps')
      else Inr (g, game_condition, turn_counter, (clue, clue_num) # clues, answers, keeps))"

text \<open>
  \<open>run\<close>: the loop from \<open>RED_TURN\<close> and turn 0, then the winner (lines 366 to 371). The
  result is the game object and \<open>turn_counter\<close>, which \<open>write_results\<close> logs.
\<close>

definition run ::
  "(string \<Rightarrow> string) \<Rightarrow> game \<Rightarrow> (string \<times> int) list \<Rightarrow> string option list \<Rightarrow> bool list \<Rightarrow> (error \<times> game) + (game \<times> nat)" where
  "run upper_strip g clues answers keeps =
     (case run_loop upper_strip g RED_TURN 0 clues answers keeps of
        Inl e \<Rightarrow> Inl e
      | Inr (g', game_condition, turn_counter, _) \<Rightarrow>
          Inr (g'\<lparr>game_winner := Some (if game_condition = RED_WIN then ''R'' else ''B'')\<rparr>,
               turn_counter))"

subsection \<open>The loops as a transition system\<close>

text \<open>
  The states the engine passes through. A configuration is the game object, the variable
  \<open>game_condition\<close> and the place in \<open>run\<close>: at the test of the outer loop (line 298), or
  at the test of \<open>while keep_guessing\<close> (line 331) with \<open>keep_guessing = True\<close> and the
  \<open>current_team\<close> of this round. A step is one clue (lines 300 to 329) or one pass through
  the guess body; both are the functions the loops above are made of. An event says what
  the step did: a clue recorded, a guess resolved and recorded, or the round ended by the
  sentinel answer of line 339.
\<close>

datatype loc = Outer | Inner string

datatype event = Clue_given | Guess_made | No_guess

type_synonym config = "game \<times> GameCondition \<times> loc"

definition is_sentinel :: "string option \<Rightarrow> bool" where
  "is_sentinel guess_answer \<longleftrightarrow> guess_answer = None \<or> guess_answer = Some ''no comparisons''"

inductive step :: "(string \<Rightarrow> string) \<Rightarrow> config \<Rightarrow> event \<Rightarrow> config \<Rightarrow> bool"
  for upper_strip :: "string \<Rightarrow> string" where
  clue:
    "game_condition \<noteq> BLUE_WIN \<Longrightarrow> game_condition \<noteq> RED_WIN \<Longrightarrow>
     step upper_strip (g, game_condition, Outer) Clue_given
          (record_clue g (current_team game_condition) clue clue_num, game_condition,
           Inner (current_team game_condition))"
| guess:
    "guess_body upper_strip g game_condition team guess_answer keeps =
       Inr (g', game_condition', keep_guessing, keeps') \<Longrightarrow>
     step upper_strip (g, game_condition, Inner team)
          (if is_sentinel guess_answer then No_guess else Guess_made)
          (g', game_condition', if keep_guessing then Inner team else Outer)"

inductive trace :: "(string \<Rightarrow> string) \<Rightarrow> config \<Rightarrow> event list \<Rightarrow> config \<Rightarrow> bool"
  for upper_strip :: "string \<Rightarrow> string" where
  nil: "trace upper_strip c [] c"
| snoc: "trace upper_strip c es c' \<Longrightarrow> step upper_strip c' e c'' \<Longrightarrow>
         trace upper_strip c (es @ [e]) c''"

text \<open>\<open>run\<close> starts at the outer loop with \<open>RED_TURN\<close> (line 286).\<close>

definition reachable :: "(string \<Rightarrow> string) \<Rightarrow> game \<Rightarrow> config \<Rightarrow> bool" where
  "reachable upper_strip g0 c \<longleftrightarrow> (\<exists>es. trace upper_strip (g0, RED_TURN, Outer) es c)"

text \<open>The number of cells that show the marker of a category.\<close>

definition revealed :: "game \<Rightarrow> string \<Rightarrow> nat" where
  "revealed g marker = count_list (words_on_board g) marker"

text \<open>The team that is not guessing wins (lines 211 to 214).\<close>

definition other_win :: "GameCondition \<Rightarrow> GameCondition" where
  "other_win game_condition = (if game_condition = RED_TURN then BLUE_WIN else RED_WIN)"

text \<open>The other team's turn (lines 218 to 221 and 352 to 355).\<close>

definition other_turn :: "GameCondition \<Rightarrow> GameCondition" where
  "other_turn game_condition = (if game_condition = RED_TURN then BLUE_TURN else RED_TURN)"

subsection \<open>What holds in every state of a run\<close>

text \<open>A lower-case ASCII letter; every marker has one.\<close>

definition lower :: "char \<Rightarrow> bool" where
  "lower c \<longleftrightarrow> 97 \<le> (of_char c :: nat) \<and> (of_char c :: nat) \<le> 122"

text \<open>
  The property of \<open>s.upper().strip()\<close> that the quotas rest on: the result has no ASCII
  lower-case letter. Python's \<open>str.upper()\<close> maps a to z to A to Z and the upper-case
  form of no other character contains one of a to z; \<open>str.strip()\<close> only removes
  characters. In UTF-8 the bytes 97 to 122 stand for a to z and occur in no other
  character.
\<close>

definition upper_cased :: "(string \<Rightarrow> string) \<Rightarrow> bool" where
  "upper_cased upper_strip \<longleftrightarrow> (\<forall>s c. c \<in> set (upper_strip s) \<longrightarrow> \<not> lower c)"

text \<open>The marker that \<open>_accept_guess\<close> stores for an entry of the key grid.\<close>

definition marker_of :: "string \<Rightarrow> string" where
  "marker_of k =
     (if k = ''Red'' then ''*Red*'' else if k = ''Blue'' then ''*Blue*''
      else if k = ''Assassin'' then ''*Assassin*'' else ''*Civilian*'')"

text \<open>A cell that shows a marker shows the marker of its own key.\<close>

definition paired :: "string list \<Rightarrow> string list \<Rightarrow> bool" where
  "paired ws key \<longleftrightarrow>
     length ws \<le> length key \<and>
     (\<forall>i<length ws. ws ! i \<in> set markers \<longrightarrow> ws ! i = marker_of (key ! i))"

definition is_turn :: "GameCondition \<Rightarrow> bool" where
  "is_turn game_condition \<longleftrightarrow> game_condition = RED_TURN \<or> game_condition = BLUE_TURN"

definition invariant :: "game \<Rightarrow> config \<Rightarrow> bool" where
  "invariant g0 c =
     (case c of (g, game_condition, l) \<Rightarrow>
        key_grid g = key_grid g0 \<and> single_team g = single_team g0 \<and>
        num_red_words g = 9 \<and> num_blue_words g = 8 \<and>
        paired (words_on_board g) (key_grid g) \<and>
        (9 \<le> revealed g ''*Red*'' \<longrightarrow> game_condition = RED_WIN) \<and>
        (8 \<le> revealed g ''*Blue*'' \<longrightarrow> game_condition = BLUE_WIN) \<and>
        (single_team g \<longrightarrow> game_condition \<noteq> BLUE_TURN) \<and>
        (case l of Outer \<Rightarrow> True
         | Inner team \<Rightarrow> team = current_team game_condition \<and> is_turn game_condition))"

text \<open>
  The last entry of the history is the guess by which \<open>team\<close> revealed the Assassin.
\<close>

definition lost_by :: "string \<Rightarrow> game \<Rightarrow> bool" where
  "lost_by team g \<longleftrightarrow>
     (case rev (move_history g) of
        [] \<Rightarrow> False
      | Clue_move tag clue clue_num # _ \<Rightarrow> False
      | Guess_move tag guess_answer shown keep # _ \<Rightarrow>
          tag = team @ ''_Guesser'' \<and> shown = ''*Assassin*'')"

text \<open>A win phase comes from the team's quota or from the other team's Assassin guess.\<close>

definition win_inv :: "config \<Rightarrow> bool" where
  "win_inv c =
     (case c of (g, game_condition, l) \<Rightarrow>
        (game_condition = RED_WIN \<longrightarrow> revealed g ''*Red*'' = 9 \<or> lost_by ''Blue'' g) \<and>
        (game_condition = BLUE_WIN \<longrightarrow> revealed g ''*Blue*'' = 8 \<or> lost_by ''Red'' g))"

text \<open>
  What the control of \<open>run\<close> keeps, whatever the board: the flag \<open>single_team\<close> is never
  written, in single-team mode the phase is never \<open>BLUE_TURN\<close> at a loop test, and inside
  a guessing round the phase is the turn of the round's team.
\<close>

definition control_inv :: "game \<Rightarrow> config \<Rightarrow> bool" where
  "control_inv g0 c =
     (case c of (g, game_condition, l) \<Rightarrow>
        single_team g = single_team g0 \<and>
        (single_team g \<longrightarrow> game_condition \<noteq> BLUE_TURN) \<and>
        (case l of Outer \<Rightarrow> True
         | Inner team \<Rightarrow> team = current_team game_condition \<and> is_turn game_condition))"

text \<open>The game object after cell \<open>i\<close> is revealed, and after the guess is recorded too.\<close>

definition reveal :: "game \<Rightarrow> nat \<Rightarrow> game" where
  "reveal g i = g\<lparr>words_on_board := (words_on_board g)[i := marker_of (key_grid g ! i)]\<rparr>"

definition resolved :: "game \<Rightarrow> string \<Rightarrow> string \<Rightarrow> nat \<Rightarrow> bool \<Rightarrow> game" where
  "resolved g team guess_answer i keep =
     (reveal g i)\<lparr>move_history := move_history g @
        [Guess_move (team @ ''_Guesser'') guess_answer (marker_of (key_grid g ! i)) keep]\<rparr>"

text \<open>The event that wrote an entry of the history.\<close>

fun event_of :: "move \<Rightarrow> event" where
  "event_of (Clue_move tag clue clue_num) = Clue_given"
| "event_of (Guess_move tag guess_answer shown keep) = Guess_made"

subsection \<open>A board to run the engine on\<close>

text \<open>
  The runs below are on ASCII words and ASCII answers. On a string of ASCII characters
  \<open>s.upper().strip()\<close> is \<open>ascii_normalise s\<close>: a to z become A to Z, and the ASCII white
  space of \<open>str.isspace()\<close> (codes 9 to 13 and 28 to 32) is removed at both ends. It is the
  \<open>upper_strip\<close> of these runs only; no statement about the engine depends on it.
\<close>

definition ascii_upper_char :: "char \<Rightarrow> char" where
  "ascii_upper_char c =
     (let n = (of_char c :: nat) in if 97 \<le> n \<and> n \<le> 122 then char_of (n - 32) else c)"

definition ascii_upper :: "string \<Rightarrow> string" where
  "ascii_upper s = map ascii_upper_char s"

definition ascii_isspace :: "char \<Rightarrow> bool" where
  "ascii_isspace c =
     (let n = (of_char c :: nat) in (9 \<le> n \<and> n \<le> 13) \<or> (28 \<le> n \<and> n \<le> 32))"

definition ascii_strip :: "string \<Rightarrow> string" where
  "ascii_strip s = rev (dropWhile ascii_isspace (rev (dropWhile ascii_isspace s)))"

definition ascii_normalise :: "string \<Rightarrow> string" where
  "ascii_normalise s = ascii_strip (ascii_upper s)"

definition demo_pool :: "string list" where
  "demo_pool =
     [''APPLE'', ''BANK'', ''CAT'', ''DOG'', ''EAGLE'',
      ''FORK'', ''GOLD'', ''HORSE'', ''IRON'', ''JET'',
      ''KING'', ''LAMP'', ''MOON'', ''NAIL'', ''OPERA'',
      ''PIANO'', ''QUEEN'', ''ROBIN'', ''SHIP'', ''TRAIN'',
      ''UNION'', ''VAN'', ''WHALE'', ''YARD'', ''ZEBRA'', ''EXTRA'']"

definition demo_key :: "string list" where
  "demo_key =
     [''Red'', ''Blue'', ''Civilian'', ''Assassin'', ''Red'',
      ''Blue'', ''Civilian'', ''Red'', ''Blue'', ''Civilian'',
      ''Red'', ''Blue'', ''Civilian'', ''Red'', ''Blue'',
      ''Civilian'', ''Red'', ''Blue'', ''Civilian'', ''Red'',
      ''Blue'', ''Civilian'', ''Red'', ''Blue'', ''Red'']"

definition demo_game :: "bool \<Rightarrow> game" where
  "demo_game single =
     \<lparr> words_on_board = take 25 demo_pool, key_grid = demo_key, move_history = [],
       single_team = single, num_red_words = 9, num_blue_words = 8,
       num_civilian_words = 7, num_assassin_words = 1, game_winner = None \<rparr>"

text \<open>The red team has had the clue "fruit" and has guessed APPLE, a red word.\<close>

definition demo_clued :: "bool \<Rightarrow> game" where
  "demo_clued single = record_clue (demo_game single) ''Red'' ''fruit'' 1"

definition demo_after_apple :: "bool \<Rightarrow> bool \<Rightarrow> game" where
  "demo_after_apple single keep = resolved (demo_clued single) ''Red'' ''apple'' 0 keep"

text \<open>
  Red guesses CAT, a civilian; then blue guesses DOG, the Assassin: red wins with no red
  word revealed.
\<close>

definition demo_blue_blunder :: game where
  "demo_blue_blunder =
     resolved
       (record_clue
          (resolved (record_clue (demo_game False) ''Red'' ''pets'' 1) ''Red'' ''cat'' 2 False)
          ''Blue'' ''pets'' 1)
       ''Blue'' ''dog'' 3 False"

text \<open>
  A word pool whose first word is the string "*Civilian*", and the game \<open>__init__\<close> makes
  of it. In the run the seven civilians are guessed in turn, then the Assassin.
\<close>

definition demo_pool_marked :: "string list" where
  "demo_pool_marked = ''*Civilian*'' # tl demo_pool"

definition demo_marked_game :: game where
  "demo_marked_game =
     \<lparr> words_on_board = take 25 demo_pool_marked, key_grid = demo_key, move_history = [],
       single_team = False, num_red_words = 9, num_blue_words = 8,
       num_civilian_words = 7, num_assassin_words = 1, game_winner = None \<rparr>"

definition demo_marked_answers :: "string option list" where
  "demo_marked_answers =
     [Some ''cat'', Some ''gold'', Some ''jet'', Some ''moon'', Some ''piano'', Some ''ship'',
      Some ''van'', Some ''dog'']"

definition demo_marked_end :: game where
  "demo_marked_end =
     (case run_loop ascii_normalise demo_marked_game RED_TURN 0 (replicate 8 (''hint'', 1))
             demo_marked_answers [] of
        Inl (e, g) \<Rightarrow> g
      | Inr (g, rest) \<Rightarrow> g)"

section \<open>Lemmas on strings, lists and the guess body\<close>

lemma ascii_upper_char_not_lower: "\<not> lower (ascii_upper_char c)"
proof -
  define n where "n = (of_char c :: nat)"
  have eq: "ascii_upper_char c = (if 97 \<le> n \<and> n \<le> 122 then char_of (n - 32) else c)"
    by (simp only: ascii_upper_char_def Let_def n_def)
  have low: "lower c = (97 \<le> n \<and> n \<le> 122)"
    by (simp only: lower_def n_def)
  show ?thesis
  proof (cases "97 \<le> n \<and> n \<le> 122")
    case True
    then have u: "ascii_upper_char c = char_of (n - 32)"
      unfolding eq by (rule if_P)
    have "n - 32 < 256" using True by arith
    then have "(of_char (char_of (n - 32)) :: nat) = n - 32"
      by simp
    moreover have "\<not> (97 \<le> n - 32 \<and> n - 32 \<le> 122)" using True by arith
    ultimately show ?thesis unfolding lower_def u by presburger
  next
    case False
    then have "ascii_upper_char c = c" unfolding eq by (rule if_not_P)
    then show ?thesis using False low by simp
  qed
qed

lemma lower_e: "lower CHR ''e''" and lower_l: "lower CHR ''l''"
  and lower_i: "lower CHR ''i''" and lower_s: "lower CHR ''s''"
  by (simp_all add: lower_def)

lemma length_filter_mset: "mset xs = mset ys \<Longrightarrow> length (filter P xs) = length (filter P ys)"
proof -
  assume "mset xs = mset ys"
  then have "mset (filter P xs) = mset (filter P ys)" by simp
  then show ?thesis by (rule mset_eq_length)
qed

lemma shuffled_key_counts:
  assumes "shuffled_key key"
  shows "length (filter (\<lambda>k. k = ''Red'') key) = 9"
    and "length (filter (\<lambda>k. k = ''Blue'') key) = 8"
    and "length (filter (\<lambda>k. k = ''Assassin'') key) = 1"
    and "length (filter (\<lambda>k. k \<noteq> ''Red'' \<and> k \<noteq> ''Blue'' \<and> k \<noteq> ''Assassin'') key) = 7"
    and "length key = 25"
proof -
  have m: "mset key = mset key_grid_unshuffled" using assms by (simp add: shuffled_key_def)
  show "length (filter (\<lambda>k. k = ''Red'') key) = 9"
    using length_filter_mset [OF m] by (simp add: key_grid_unshuffled_def)
  show "length (filter (\<lambda>k. k = ''Blue'') key) = 8"
    using length_filter_mset [OF m] by (simp add: key_grid_unshuffled_def)
  show "length (filter (\<lambda>k. k = ''Assassin'') key) = 1"
    using length_filter_mset [OF m] by (simp add: key_grid_unshuffled_def)
  show "length (filter (\<lambda>k. k \<noteq> ''Red'' \<and> k \<noteq> ''Blue'' \<and> k \<noteq> ''Assassin'') key) = 7"
    using length_filter_mset [OF m] by (simp add: key_grid_unshuffled_def)
  show "length key = 25"
    using mset_eq_length [OF m] by (simp add: key_grid_unshuffled_def)
qed


lemma set_ascii_strip: "set (ascii_strip s) \<subseteq> set s"
proof -
  have "set (ascii_strip s) \<subseteq> set (dropWhile ascii_isspace s)"
    unfolding ascii_strip_def using set_dropWhileD by fastforce
  also have "\<dots> \<subseteq> set s" using set_dropWhileD by fastforce
  finally show ?thesis .
qed

lemma ascii_upper_cased: "upper_cased ascii_normalise"
  unfolding upper_cased_def
proof (intro allI impI)
  fix s c
  assume "c \<in> set (ascii_normalise s)"
  then have "c \<in> set (ascii_upper s)" using set_ascii_strip by (auto simp: ascii_normalise_def)
  then show "\<not> lower c" by (auto simp: ascii_upper_def ascii_upper_char_not_lower)
qed

lemma normalised_no_lower: "upper_cased norm \<Longrightarrow> c \<in> set (norm s) \<Longrightarrow> \<not> lower c"
  by (simp add: upper_cased_def)

lemma normalised_not_marker:
  assumes "upper_cased norm"
  shows "norm s \<noteq> ''*Red*''" "norm s \<noteq> ''*Blue*''"
    "norm s \<noteq> ''*Civilian*''" "norm s \<noteq> ''*Assassin*''"
proof -
  show "norm s \<noteq> ''*Red*''"
    using normalised_no_lower [OF assms, of "CHR ''e''" s] lower_e by auto
  show "norm s \<noteq> ''*Blue*''"
    using normalised_no_lower [OF assms, of "CHR ''e''" s] lower_e by auto
  show "norm s \<noteq> ''*Civilian*''"
    using normalised_no_lower [OF assms, of "CHR ''i''" s] lower_i by auto
  show "norm s \<noteq> ''*Assassin*''"
    using normalised_no_lower [OF assms, of "CHR ''s''" s] lower_s by auto
qed

lemma index_of_Some: "index_of xs x = Some i \<Longrightarrow> i < length xs \<and> xs ! i = x"
  by (induction xs arbitrary: i) (auto split: if_splits)


lemma count_list_update_new:
  "i < length xs \<Longrightarrow> xs ! i \<noteq> a \<Longrightarrow> count_list (xs[i := a]) a = Suc (count_list xs a)"
proof (induction xs arbitrary: i)
  case Nil then show ?case by simp
next
  case (Cons x xs) then show ?case by (cases i) auto
qed

lemma count_list_update_other:
  "xs ! i \<noteq> b \<Longrightarrow> a \<noteq> b \<Longrightarrow> count_list (xs[i := a]) b = count_list xs b"
proof (induction xs arbitrary: i)
  case Nil then show ?case by simp
next
  case (Cons x xs) then show ?case by (cases i) auto
qed

lemma count_list_paired:
  "length xs \<le> length ys \<Longrightarrow> \<forall>i<length xs. xs ! i = a \<longrightarrow> P (ys ! i) \<Longrightarrow>
   count_list xs a \<le> length (filter P ys)"
proof (induction xs arbitrary: ys)
  case Nil then show ?case by simp
next
  case (Cons x xs)
  then obtain y ys' where ys: "ys = y # ys'" by (cases ys) auto
  have "\<forall>i<length xs. xs ! i = a \<longrightarrow> P (ys' ! i)"
    using Cons.prems(2) ys by fastforce
  then have ih: "count_list xs a \<le> length (filter P ys')"
    using Cons.IH [of ys'] Cons.prems(1) ys by simp
  have "x = a \<longrightarrow> P y" using Cons.prems(2) ys by fastforce
  then show ?case using ih ys by auto
qed



lemma marker_of_eq:
  "marker_of k = ''*Red*'' \<longleftrightarrow> k = ''Red''"
  "marker_of k = ''*Blue*'' \<longleftrightarrow> k = ''Blue''"
  "marker_of k = ''*Assassin*'' \<longleftrightarrow> k = ''Assassin''"
  "marker_of k = ''*Civilian*'' \<longleftrightarrow> k \<noteq> ''Red'' \<and> k \<noteq> ''Blue'' \<and> k \<noteq> ''Assassin''"
  by (simp_all add: marker_of_def)

lemma accept_guess_Inr:
  assumes "accept_guess g i gc = Inr (g1, res)"
  shows "i < length (key_grid g)" and "i < length (words_on_board g)"
    and "g1 = g\<lparr>words_on_board := (words_on_board g)[i := marker_of (key_grid g ! i)]\<rparr>"
    and "key_grid g ! i = ''Red'' \<Longrightarrow>
         res = (if num_red_words g \<le> count_list (words_on_board g1) ''*Red*'' then RED_WIN else RED_TURN)"
    and "key_grid g ! i = ''Blue'' \<Longrightarrow>
         res = (if num_blue_words g \<le> count_list (words_on_board g1) ''*Blue*'' then BLUE_WIN else BLUE_TURN)"
    and "key_grid g ! i = ''Assassin'' \<Longrightarrow> res = other_win gc"
    and "key_grid g ! i \<noteq> ''Red'' \<Longrightarrow> key_grid g ! i \<noteq> ''Blue'' \<Longrightarrow> key_grid g ! i \<noteq> ''Assassin'' \<Longrightarrow>
         res = other_turn gc"
  using assms unfolding accept_guess_def set_word_def marker_of_def other_win_def other_turn_def
  by (auto split: if_splits)

lemma guess_body_cases:
  assumes "guess_body norm g gc team a ks = Inr (g', gc', k, ks')"
  obtains (sentinel) "is_sentinel a" "g' = g" "gc' = gc" "\<not> k" "ks' = ks"
  | (same) s i g1 where "a = Some s" "\<not> is_sentinel a"
      "index_of (words_on_board g) (norm s) = Some i"
      "accept_guess g i gc = Inr (g1, gc)" "ks = k # ks'"
      "g' = record_guess g1 team s i k"
      "gc' = force_single g1 (if k then gc else pass_turn gc)"
  | (changed) s i g1 res where "a = Some s" "\<not> is_sentinel a"
      "index_of (words_on_board g) (norm s) = Some i"
      "accept_guess g i gc = Inr (g1, res)" "res \<noteq> gc" "\<not> k" "ks' = ks"
      "g' = record_guess g1 team s i False"
      "gc' = force_single g1 res"
proof (cases "is_sentinel a")
  case True
  then have "guess_body norm g gc team a ks = Inr (g, gc, False, ks)"
    by (auto simp: guess_body_def is_sentinel_def)
  with assms have "g' = g" "gc' = gc" "\<not> k" "ks' = ks" by simp_all
  with True show ?thesis by (rule sentinel)
next
  case False
  then obtain s where a: "a = Some s" and s: "s \<noteq> ''no comparisons''"
    by (cases a) (auto simp: is_sentinel_def)
  show ?thesis
  proof (cases "index_of (words_on_board g) (norm s)")
    case None
    then show ?thesis using assms a s by (simp add: guess_body_def)
  next
    case (Some i)
    show ?thesis
    proof (cases "accept_guess g i gc")
      case (Inl e)
      then show ?thesis using assms a s Some by (simp add: guess_body_def)
    next
      case (Inr r)
      then obtain g1 res where r: "accept_guess g i gc = Inr (g1, res)" by (cases r) auto
      show ?thesis
      proof (cases "gc = res")
        case True
        show ?thesis
        proof (cases ks)
          case Nil
          then show ?thesis using assms a s Some r True by (simp add: guess_body_def)
        next
          case (Cons k0 ks0)
          have eq: "guess_body norm g gc team a ks =
                Inr (record_guess g1 team s i k0,
                     force_single g1 (if k0 then gc else pass_turn gc), k0, ks0)"
            using a s Some r True Cons
            by (simp add: guess_body_def Let_def record_guess_def force_single_def)
          with assms have "g' = record_guess g1 team s i k"
            "gc' = force_single g1 (if k then gc else pass_turn gc)" "ks = k # ks'"
            using Cons by simp_all
          with a \<open>\<not> is_sentinel a\<close> Some r True show ?thesis
            by (intro same [of s i g1]) auto
        qed
      next
        case False
        have eq: "guess_body norm g gc team a ks =
              Inr (record_guess g1 team s i False, force_single g1 res, False, ks)"
          using a s Some r False
          by (simp add: guess_body_def Let_def record_guess_def force_single_def)
        with assms have "g' = record_guess g1 team s i False"
          "gc' = force_single g1 res" "\<not> k" "ks' = ks"
          by simp_all
        with a \<open>\<not> is_sentinel a\<close> Some r False show ?thesis
          by (intro changed [of s i g1 res]) auto
      qed
    qed
  qed
qed

section \<open>The invariant of the run\<close>

lemma unrevealed_nth: "unrevealed ws \<Longrightarrow> i < length ws \<Longrightarrow> ws ! i \<notin> set markers"
  by (simp add: unrevealed_def list_all_length)

lemma unrevealed_count: "unrevealed ws \<Longrightarrow> m \<in> set markers \<Longrightarrow> count_list ws m = 0"
  by (auto simp: unrevealed_def list_all_iff count_list_0_iff)

lemma Game_init_Inr:
  assumes "Game_init pool key single = Inr g0"
  shows "distinct pool" and "words_on_board g0 = take 25 pool" and "key_grid g0 = key"
    and "move_history g0 = []" and "single_team g0 = single"
    and "num_red_words g0 = 9" and "num_blue_words g0 = 8"
  using assms by (auto simp: Game_init_def split: if_splits)

lemma invariant_start:
  assumes init: "Game_init pool key single = Inr g0"
    and fresh: "unrevealed (take 25 pool)" and key: "shuffled_key key"
  shows "invariant g0 (g0, RED_TURN, Outer)"
proof -
  note g0 = Game_init_Inr [OF init]
  have len: "length (words_on_board g0) \<le> length (key_grid g0)"
    using g0(2,3) shuffled_key_counts(5) [OF key] by simp
  have "paired (words_on_board g0) (key_grid g0)"
    unfolding paired_def using len unrevealed_nth [OF fresh] g0(2) by simp
  moreover have "revealed g0 ''*Red*'' = 0" "revealed g0 ''*Blue*'' = 0"
    using unrevealed_count [OF fresh] g0(2) by (simp_all add: revealed_def markers_def)
  ultimately show ?thesis
    using g0 by (simp add: invariant_def)
qed

lemma invariant_clue:
  assumes "invariant g0 (g, gc, Outer)" and "gc \<noteq> BLUE_WIN" and "gc \<noteq> RED_WIN"
  shows "invariant g0 (record_clue g (current_team gc) clue n, gc, Inner (current_team gc))"
proof -
  have "is_turn gc" using assms(2,3) by (cases gc) (simp_all add: is_turn_def)
  then show ?thesis using assms(1)
    by (auto simp: invariant_def record_clue_def revealed_def)
qed

lemma paired_update:
  assumes "paired ws key" and "i < length ws"
  shows "paired (ws[i := marker_of (key ! i)]) key"
  using assms by (auto simp: paired_def nth_list_update)

lemma force_single_not_blue: "single_team g \<Longrightarrow> force_single g gc \<noteq> BLUE_TURN"
  by (simp add: force_single_def)

lemma force_single_id: "gc \<noteq> BLUE_TURN \<Longrightarrow> force_single g gc = gc"
  by (simp add: force_single_def)

text \<open>What a resolved guess does to the board and the two team counts.\<close>

lemma resolved_guess:
  assumes idx: "index_of (words_on_board g) (norm s) = Some i"
    and acc: "accept_guess g i gc = Inr (g1, res)"
    and turn: "is_turn gc"
    and inv: "invariant g0 (g, gc, l)"
    and up: "upper_cased norm"
  shows "key_grid g1 = key_grid g0" and "single_team g1 = single_team g0"
    and "num_red_words g1 = 9" and "num_blue_words g1 = 8"
    and "paired (words_on_board g1) (key_grid g1)"
    and "9 \<le> revealed g1 ''*Red*'' \<longrightarrow> res = RED_WIN"
    and "8 \<le> revealed g1 ''*Blue*'' \<longrightarrow> res = BLUE_WIN"
    and "res = gc \<longrightarrow> revealed g1 ''*Red*'' < 9 \<and> revealed g1 ''*Blue*'' < 8"
    and "revealed g1 ''*Red*'' \<le> 9" and "revealed g1 ''*Blue*'' \<le> 8"
proof -
  note a = accept_guess_Inr [OF acc]
  note ix = index_of_Some [OF idx]
  let ?ws = "words_on_board g"
  have g1: "g1 = g\<lparr>words_on_board := ?ws[i := marker_of (key_grid g ! i)]\<rparr>" by (rule a(3))
  have inv': "key_grid g = key_grid g0" "single_team g = single_team g0"
    "num_red_words g = 9" "num_blue_words g = 8" "paired ?ws (key_grid g)"
    "revealed g ''*Red*'' < 9" "revealed g ''*Blue*'' < 8"
    using inv turn by (auto simp: invariant_def is_turn_def)
  show "key_grid g1 = key_grid g0" "single_team g1 = single_team g0"
    "num_red_words g1 = 9" "num_blue_words g1 = 8"
    using g1 inv' by simp_all
  show "paired (words_on_board g1) (key_grid g1)"
    using g1 paired_update [OF inv'(5) a(2)] by simp
  have nm: "?ws ! i \<noteq> ''*Red*''" "?ws ! i \<noteq> ''*Blue*''"
    using ix normalised_not_marker [OF up, of s] by auto
  have red: "revealed g1 ''*Red*'' =
      (if key_grid g ! i = ''Red'' then Suc (revealed g ''*Red*'') else revealed g ''*Red*'')"
    using g1 nm(1) a(2)
    by (simp add: revealed_def count_list_update_new count_list_update_other marker_of_eq marker_of_def)
  have blue: "revealed g1 ''*Blue*'' =
      (if key_grid g ! i = ''Blue'' then Suc (revealed g ''*Blue*'') else revealed g ''*Blue*'')"
    using g1 nm(2) a(2)
    by (simp add: revealed_def count_list_update_new count_list_update_other marker_of_eq marker_of_def)
  show r9: "9 \<le> revealed g1 ''*Red*'' \<longrightarrow> res = RED_WIN"
  proof (cases "key_grid g ! i = ''Red''")
    case True
    then show ?thesis using a(4) inv'(3) by (simp add: revealed_def)
  next
    case False
    then show ?thesis using red inv'(6) by simp
  qed
  show b8: "8 \<le> revealed g1 ''*Blue*'' \<longrightarrow> res = BLUE_WIN"
  proof (cases "key_grid g ! i = ''Blue''")
    case True
    then show ?thesis using a(5) inv'(4) by (simp add: revealed_def)
  next
    case False
    then show ?thesis using blue inv'(7) by simp
  qed
  show "res = gc \<longrightarrow> revealed g1 ''*Red*'' < 9 \<and> revealed g1 ''*Blue*'' < 8"
    using r9 b8 turn by (auto simp: is_turn_def)
  show "revealed g1 ''*Red*'' \<le> 9" using red inv'(6) by simp
  show "revealed g1 ''*Blue*'' \<le> 8" using blue inv'(7) by simp
qed


lemma invariant_guess:
  assumes inv: "invariant g0 (g, gc, Inner team)"
    and body: "guess_body norm g gc team a ks = Inr (g', gc', k, ks')"
    and up: "upper_cased norm"
  shows "invariant g0 (g', gc', if k then Inner team else Outer)"
proof -
  have turn: "is_turn gc" and team: "team = current_team gc"
    and single: "single_team g \<longrightarrow> gc \<noteq> BLUE_TURN"
    using inv by (auto simp: invariant_def)
  from body show ?thesis
  proof (cases rule: guess_body_cases)
    case sentinel
    then show ?thesis using inv by (auto simp: invariant_def)
  next
    case (same s i g1)
    note r = resolved_guess [where norm = norm, OF same(3) same(4) turn inv up]
    have st: "single_team g1 = single_team g" using r(2) inv by (auto simp: invariant_def)
    have w: "words_on_board g' = words_on_board g1" "key_grid g' = key_grid g1"
      "single_team g' = single_team g1" "num_red_words g' = num_red_words g1"
      "num_blue_words g' = num_blue_words g1"
      using same(6) by (simp_all add: record_guess_def)
    have lt: "revealed g' ''*Red*'' < 9" "revealed g' ''*Blue*'' < 8"
      using r(8) w(1) by (simp_all add: revealed_def)
    have nb: "single_team g' \<longrightarrow> gc' \<noteq> BLUE_TURN"
      using same(7) w(3) force_single_not_blue by simp
    have loc: "k \<longrightarrow> gc' = gc"
      using same(7) single st by (auto simp: force_single_def)
    show ?thesis
      using r(1-5) w lt nb loc turn team by (auto simp: invariant_def)
  next
    case (changed s i g1 res)
    note r = resolved_guess [where norm = norm, OF changed(3) changed(4) turn inv up]
    have w: "words_on_board g' = words_on_board g1" "key_grid g' = key_grid g1"
      "single_team g' = single_team g1" "num_red_words g' = num_red_words g1"
      "num_blue_words g' = num_blue_words g1"
      using changed(8) by (simp_all add: record_guess_def)
    have c9: "9 \<le> revealed g' ''*Red*'' \<longrightarrow> gc' = RED_WIN"
      using r(6) w(1) changed(9) by (auto simp: revealed_def force_single_def)
    have c8: "8 \<le> revealed g' ''*Blue*'' \<longrightarrow> gc' = BLUE_WIN"
      using r(7) w(1) changed(9) by (auto simp: revealed_def force_single_def)
    have nb: "single_team g' \<longrightarrow> gc' \<noteq> BLUE_TURN"
      using changed(9) w(3) force_single_not_blue by simp
    show ?thesis
      using r(1-5) w c9 c8 nb changed(6) by (auto simp: invariant_def)
  qed
qed

lemma invariant_step:
  assumes "step norm c e c'" and "invariant g0 c" and "upper_cased norm"
  shows "invariant g0 c'"
  using assms
proof (induction rule: step.induct)
  case (clue gc g cl n)
  then show ?case by (simp add: invariant_clue)
next
  case (guess g gc team a ks g' gc' k ks')
  then show ?case by (simp add: invariant_guess)
qed

lemma invariant_trace:
  assumes "trace norm c es c'" and "invariant g0 c" and "upper_cased norm"
  shows "invariant g0 c'"
  using assms by (induction rule: trace.induct) (auto intro: invariant_step)

lemma reachable_invariant:
  assumes "Game_init pool key single = Inr g0"
    and "unrevealed (take 25 pool)" and "shuffled_key key"
    and "upper_cased norm" and "reachable norm g0 c"
  shows "invariant g0 c"
  using assms invariant_start invariant_trace unfolding reachable_def by blast

section \<open>The guess body, case by case\<close>

lemma accept_guess_reveal:
  assumes "i < length (key_grid g)" and "i < length (words_on_board g)"
  shows "accept_guess g i gc =
     Inr (reveal g i,
          if key_grid g ! i = ''Red'' then
            (if num_red_words g \<le> revealed (reveal g i) ''*Red*'' then RED_WIN else RED_TURN)
          else if key_grid g ! i = ''Blue'' then
            (if num_blue_words g \<le> revealed (reveal g i) ''*Blue*'' then BLUE_WIN else BLUE_TURN)
          else if key_grid g ! i = ''Assassin'' then other_win gc
          else other_turn gc)"
  using assms
  by (simp add: accept_guess_def set_word_def reveal_def marker_of_def revealed_def
      other_win_def other_turn_def)

lemma record_guess_reveal:
  "i < length (words_on_board g) \<Longrightarrow> record_guess (reveal g i) team s i k = resolved g team s i k"
  by (simp add: record_guess_def reveal_def resolved_def)

lemma force_single_reveal [simp]: "force_single (resolved g team s i k) gc = force_single g gc"
  by (simp add: force_single_def resolved_def reveal_def)

text \<open>The guess body on an answer found on the board, by the result of \<open>_accept_guess\<close>.\<close>

lemma guess_body_changed:
  assumes "\<not> is_sentinel (Some s)"
    and "index_of (words_on_board g) (norm s) = Some i"
    and "accept_guess g i gc = Inr (reveal g i, res)" and "res \<noteq> gc"
  shows "guess_body norm g gc team (Some s) keeps =
           Inr (resolved g team s i False, force_single g res, False, keeps)"
proof -
  have "i < length (words_on_board g)" using index_of_Some [OF assms(2)] by simp
  then show ?thesis using assms
    by (auto simp: guess_body_def is_sentinel_def Let_def record_guess_reveal)
qed

lemma guess_body_same:
  assumes "\<not> is_sentinel (Some s)"
    and "index_of (words_on_board g) (norm s) = Some i"
    and "accept_guess g i gc = Inr (reveal g i, gc)"
  shows "guess_body norm g gc team (Some s) (k # keeps) =
           Inr (resolved g team s i k, force_single g (if k then gc else pass_turn gc), k, keeps)"
proof -
  have "i < length (words_on_board g)" using index_of_Some [OF assms(2)] by simp
  then show ?thesis using assms
    by (auto simp: guess_body_def is_sentinel_def Let_def record_guess_reveal)
qed





text \<open>Positions on the demonstration board.\<close>

lemma demo_index_dog:
  "index_of (words_on_board (demo_game False)) (ascii_normalise ''dog'') = Some 3"
  by code_simp

lemma demo_index_cat:
  "index_of (words_on_board (demo_game True)) (ascii_normalise '' Cat '') = Some 2"
  by code_simp

section \<open>The sentinel answer\<close>

text \<open>
  Claim C6. When \<open>get_answer()\<close> returns \<open>None\<close> or the string "no comparisons", the
  guessing round ends at once: the loop returns the game object as it was (no cell
  revealed, no entry appended to the history), the phase as it was, and every
  \<open>keep_guessing()\<close> value still unused, so \<open>keep_guessing()\<close> was not called.
\<close>

theorem sentinel_ends_round:
  "is_sentinel guess_answer \<Longrightarrow>
   guess_loop norm g game_condition team (guess_answer # answers) keeps
     = Inr (g, game_condition, answers, keeps)"
  by (auto simp: guess_body_def is_sentinel_def)

theorem sentinel_ends_round_witness:
  "is_sentinel (Some ''no comparisons'') \<and>
   guess_loop ascii_normalise (demo_game False) RED_TURN ''Red'' [Some ''no comparisons'', Some ''apple''] [True]
     = Inr (demo_game False, RED_TURN, [Some ''apple''], [True])"
  using sentinel_ends_round [where norm = ascii_normalise, of "Some ''no comparisons''" "demo_game False" RED_TURN "''Red''"
      "[Some ''apple'']" "[True]"]
  by (simp add: is_sentinel_def)

section \<open>The Assassin\<close>

text \<open>
  Claim C1. In any state in which a team is guessing, an answer that is found on the board
  at a cell whose key is "Assassin" reveals that cell (it now shows the marker
  \<open>*Assassin*\<close>), records the guess with \<open>keep_guessing = False\<close> and ends the round in the
  win of the team that did not guess: \<open>BLUE_WIN\<close> in \<open>RED_TURN\<close>, \<open>RED_WIN\<close> in
  \<open>BLUE_TURN\<close>. The outer loop then stops at once: no clue, no answer and no
  \<open>keep_guessing()\<close> value is used after it. This holds in every state, reachable or not,
  and in single-team mode too.
\<close>

theorem assassin_ends_game:
  assumes "is_turn game_condition" and "\<not> is_sentinel (Some answer)"
    and "index_of (words_on_board g) (norm answer) = Some i"
    and "i < length (key_grid g)" and "key_grid g ! i = ''Assassin''"
  shows "guess_loop norm g game_condition team (Some answer # answers) keeps =
           Inr (resolved g team answer i False,
                (if game_condition = RED_TURN then BLUE_WIN else RED_WIN), answers, keeps) \<and>
         words_on_board (resolved g team answer i False) = (words_on_board g)[i := ''*Assassin*''] \<and>
         run_loop norm (resolved g team answer i False)
             (if game_condition = RED_TURN then BLUE_WIN else RED_WIN) turn_counter clues answers keeps =
           Inr (resolved g team answer i False,
                (if game_condition = RED_TURN then BLUE_WIN else RED_WIN),
                turn_counter, clues, answers, keeps)"
proof -
  let ?win = "if game_condition = RED_TURN then BLUE_WIN else RED_WIN"
  have len: "i < length (words_on_board g)" using index_of_Some [OF assms(3)] by simp
  have acc: "accept_guess g i game_condition = Inr (reveal g i, ?win)"
    using accept_guess_reveal [OF assms(4) len] assms(5) by (simp add: other_win_def)
  have ne: "?win \<noteq> game_condition" using assms(1) by (auto simp: is_turn_def)
  have "guess_body norm g game_condition team (Some answer) keeps =
          Inr (resolved g team answer i False, force_single g ?win, False, keeps)"
    by (rule guess_body_changed [where norm = norm, OF assms(2) assms(3) acc ne])
  moreover have "force_single g ?win = ?win" by (simp add: force_single_def)
  ultimately have loop: "guess_loop norm g game_condition team (Some answer # answers) keeps =
      Inr (resolved g team answer i False, ?win, answers, keeps)"
    by simp
  have board: "words_on_board (resolved g team answer i False) = (words_on_board g)[i := ''*Assassin*'']"
    using assms(5) by (simp add: resolved_def reveal_def marker_of_def)
  have stop: "run_loop norm (resolved g team answer i False) ?win turn_counter clues answers keeps =
      Inr (resolved g team answer i False, ?win, turn_counter, clues, answers, keeps)"
    by (cases clues) auto
  show ?thesis using loop board stop by blast
qed

theorem assassin_ends_game_witness:
  "guess_loop ascii_normalise (demo_game False) RED_TURN ''Red'' [Some ''dog'', Some ''cat''] [True] =
     Inr (resolved (demo_game False) ''Red'' ''dog'' 3 False, BLUE_WIN, [Some ''cat''], [True]) \<and>
   words_on_board (resolved (demo_game False) ''Red'' ''dog'' 3 False) ! 3 = ''*Assassin*'' \<and>
   run_loop ascii_normalise (resolved (demo_game False) ''Red'' ''dog'' 3 False) BLUE_WIN 1 [(''pets'', 2)]
       [Some ''cat''] [True] =
     Inr (resolved (demo_game False) ''Red'' ''dog'' 3 False, BLUE_WIN, 1, [(''pets'', 2)],
          [Some ''cat''], [True])"
proof -
  have h1: "is_turn RED_TURN" by (simp add: is_turn_def)
  have h2: "\<not> is_sentinel (Some ''dog'')" by (simp add: is_sentinel_def)
  have h4: "3 < length (key_grid (demo_game False))" by (simp add: demo_game_def demo_key_def)
  have h5: "key_grid (demo_game False) ! 3 = ''Assassin''" by (simp add: demo_game_def demo_key_def)
  have h6: "length (words_on_board (demo_game False)) = 25" by (simp add: demo_game_def demo_pool_def)
  show ?thesis
    using assassin_ends_game [where norm = ascii_normalise, OF h1 h2 demo_index_dog h4 h5, of "''Red''" "[Some ''cat'']" "[True]" 1
        "[(''pets'', 2)]"] h6
    by simp
qed

section \<open>A Civilian\<close>

text \<open>
  Claim C4. An answer found at a cell whose key is "Civilian" reveals the cell (marker
  \<open>*Civilian*\<close>), records the guess with the flag \<open>False\<close> and ends the round; the phase
  is the other team's turn, so no team has won, except in single-team mode, where the
  phase is \<open>RED_TURN\<close>.
\<close>

theorem neutral_passes_turn:
  assumes "is_turn game_condition" and "\<not> is_sentinel (Some answer)"
    and "index_of (words_on_board g) (norm answer) = Some i"
    and "i < length (key_grid g)" and "key_grid g ! i = ''Civilian''"
  shows "guess_loop norm g game_condition team (Some answer # answers) keeps =
           Inr (resolved g team answer i False,
                (if single_team g then RED_TURN
                 else if game_condition = RED_TURN then BLUE_TURN else RED_TURN), answers, keeps) \<and>
         words_on_board (resolved g team answer i False) = (words_on_board g)[i := ''*Civilian*''] \<and>
         move_history (resolved g team answer i False) =
           move_history g @ [Guess_move (team @ ''_Guesser'') answer ''*Civilian*'' False]"
proof -
  let ?next = "if game_condition = RED_TURN then BLUE_TURN else RED_TURN"
  have len: "i < length (words_on_board g)" using index_of_Some [OF assms(3)] by simp
  have acc: "accept_guess g i game_condition = Inr (reveal g i, ?next)"
    using accept_guess_reveal [OF assms(4) len] assms(5) by (simp add: other_turn_def)
  have ne: "?next \<noteq> game_condition" using assms(1) by (auto simp: is_turn_def)
  have "guess_body norm g game_condition team (Some answer) keeps =
          Inr (resolved g team answer i False, force_single g ?next, False, keeps)"
    by (rule guess_body_changed [where norm = norm, OF assms(2) assms(3) acc ne])
  moreover have "force_single g ?next = (if single_team g then RED_TURN else ?next)"
    by (simp add: force_single_def)
  ultimately have loop: "guess_loop norm g game_condition team (Some answer # answers) keeps =
      Inr (resolved g team answer i False, (if single_team g then RED_TURN else ?next), answers, keeps)"
    by simp
  have board: "words_on_board (resolved g team answer i False) = (words_on_board g)[i := ''*Civilian*'']"
    using assms(5) by (simp add: resolved_def reveal_def marker_of_def)
  have hist: "move_history (resolved g team answer i False) =
           move_history g @ [Guess_move (team @ ''_Guesser'') answer ''*Civilian*'' False]"
    using assms(5) by (simp add: resolved_def reveal_def marker_of_def)
  show ?thesis using loop board hist by simp
qed

theorem neutral_passes_turn_witness:
  "guess_loop ascii_normalise (demo_game True) RED_TURN ''Red'' [Some '' Cat ''] [] =
     Inr (resolved (demo_game True) ''Red'' '' Cat '' 2 False, RED_TURN, [], []) \<and>
   words_on_board (resolved (demo_game True) ''Red'' '' Cat '' 2 False) ! 2 = ''*Civilian*'' \<and>
   move_history (resolved (demo_game True) ''Red'' '' Cat '' 2 False) =
     [Guess_move ''Red_Guesser'' '' Cat '' ''*Civilian*'' False]"
proof -
  have h1: "is_turn RED_TURN" by (simp add: is_turn_def)
  have h2: "\<not> is_sentinel (Some '' Cat '')" by (simp add: is_sentinel_def)
  have h4: "2 < length (key_grid (demo_game True))" by (simp add: demo_game_def demo_key_def)
  have h5: "key_grid (demo_game True) ! 2 = ''Civilian''" by (simp add: demo_game_def demo_key_def)
  have h6: "length (words_on_board (demo_game True)) = 25" by (simp add: demo_game_def demo_pool_def)
  have h7: "single_team (demo_game True)" "move_history (demo_game True) = []"
    by (simp_all add: demo_game_def)
  show ?thesis
    using neutral_passes_turn [where norm = ascii_normalise, OF h1 h2 demo_index_cat h4 h5, of "''Red''" "[]" "[]"] h6 h7
    by simp
qed

section \<open>A guess of the team's own word\<close>

text \<open>
  Claim C3, as the specification states it, at an input: in single-team mode the red
  guesser finds APPLE, a red word and the first of nine, and \<open>keep_guessing()\<close> returns
  \<open>False\<close>. The phase after the round is \<open>RED_TURN\<close>, not the other team's turn: line 353
  sets \<open>BLUE_TURN\<close> and line 363 sets \<open>RED_TURN\<close> again.
\<close>

theorem own_guess_stop_single_counterexample:
  "single_team (demo_game True) \<and>
   key_grid (demo_game True) ! 0 = ''Red'' \<and>
   revealed (resolved (demo_game True) ''Red'' ''apple'' 0 False) ''*Red*'' = 1 \<and>
   guess_loop ascii_normalise (demo_game True) RED_TURN ''Red'' [Some ''apple''] [False] =
     Inr (resolved (demo_game True) ''Red'' ''apple'' 0 False, RED_TURN, [], []) \<and>
   RED_TURN \<noteq> BLUE_TURN"
  by code_simp

text \<open>
  Claim C3, amended. In a state in which a team is guessing (and, in single-team mode,
  that team is red), an answer found at a cell of the guessing team's own colour that
  does not complete the team's quota reveals the cell and leaves the phase as it is; the
  engine asks \<open>keep_guessing()\<close>. If the value is \<open>True\<close> the round goes on in the same
  phase with the next answer. If it is \<open>False\<close> the round ends and the phase is the other
  team's turn, except in single-team mode, where it is \<open>RED_TURN\<close>.
\<close>

theorem own_guess_continues:
  assumes "is_turn game_condition" and "\<not> (single_team g \<and> game_condition = BLUE_TURN)"
    and "\<not> is_sentinel (Some answer)"
    and "index_of (words_on_board g) (norm answer) = Some i"
    and "i < length (key_grid g)" and "key_grid g ! i = current_team game_condition"
    and "revealed (reveal g i) (marker_of (current_team game_condition)) <
           (if game_condition = RED_TURN then num_red_words g else num_blue_words g)"
  shows "guess_loop norm g game_condition team (Some answer # answers) (True # keeps) =
           guess_loop norm (resolved g team answer i True) game_condition team answers keeps \<and>
         guess_loop norm g game_condition team (Some answer # answers) (False # keeps) =
           Inr (resolved g team answer i False,
                (if single_team g then RED_TURN
                 else if game_condition = RED_TURN then BLUE_TURN else RED_TURN), answers, keeps)"
proof -
  have len: "i < length (words_on_board g)" using index_of_Some [OF assms(4)] by simp
  have acc: "accept_guess g i game_condition = Inr (reveal g i, game_condition)"
    using accept_guess_reveal [OF assms(5) len, of game_condition] assms(1,6,7)
    by (auto simp: is_turn_def current_team_def marker_of_def)
  have body: "guess_body norm g game_condition team (Some answer) (k # keeps) =
      Inr (resolved g team answer i k,
           force_single g (if k then game_condition else pass_turn game_condition), k, keeps)" for k
    by (rule guess_body_same [where norm = norm, OF assms(3) assms(4) acc])
  have t: "force_single g game_condition = game_condition"
    using assms(2) by (auto simp: force_single_def)
  have f: "force_single g (pass_turn game_condition) =
      (if single_team g then RED_TURN else if game_condition = RED_TURN then BLUE_TURN else RED_TURN)"
    using assms(1,2) by (auto simp: force_single_def pass_turn_def is_turn_def)
  show ?thesis using body [of True] body [of False] t f by simp
qed

theorem own_guess_continues_witness:
  "guess_loop ascii_normalise (demo_game False) RED_TURN ''Red'' [Some ''apple'', None] [True] =
     guess_loop ascii_normalise (resolved (demo_game False) ''Red'' ''apple'' 0 True) RED_TURN ''Red'' [None] [] \<and>
   guess_loop ascii_normalise (demo_game False) RED_TURN ''Red'' [Some ''apple'', None] [False] =
     Inr (resolved (demo_game False) ''Red'' ''apple'' 0 False, BLUE_TURN, [None], [])"
proof -
  have h1: "is_turn RED_TURN" by (simp add: is_turn_def)
  have h2: "\<not> (single_team (demo_game False) \<and> RED_TURN = BLUE_TURN)" by simp
  have h3: "\<not> is_sentinel (Some ''apple'')" by (simp add: is_sentinel_def)
  have h4: "index_of (words_on_board (demo_game False)) (ascii_normalise ''apple'') = Some 0"
    by code_simp
  have h5: "0 < length (key_grid (demo_game False))" by (simp add: demo_game_def demo_key_def)
  have h6: "key_grid (demo_game False) ! 0 = current_team RED_TURN" by code_simp
  have h7: "revealed (reveal (demo_game False) 0) (marker_of (current_team RED_TURN)) <
           (if RED_TURN = RED_TURN then num_red_words (demo_game False)
            else num_blue_words (demo_game False))"
    by code_simp
  have h8: "\<not> single_team (demo_game False)" by (simp add: demo_game_def)
  show ?thesis
    using own_guess_continues [where norm = ascii_normalise, OF h1 h2 h3 h4 h5 h6 h7, of "''Red''" "[None]" "[]"] h8
    by simp
qed

section \<open>The win phases are terminal\<close>

lemma control_start: "control_inv g0 (g0, RED_TURN, Outer)"
  by (simp add: control_inv_def)

lemma accept_guess_single: "accept_guess g i gc = Inr (g1, res) \<Longrightarrow> single_team g1 = single_team g"
  using accept_guess_Inr(3) [of g i gc g1 res] by simp

lemma control_step:
  assumes "step norm c e c'" and "control_inv g0 c"
  shows "control_inv g0 c'"
  using assms
proof (induction rule: step.induct)
  case (clue gc g cl n)
  have "is_turn gc" using clue(1,2) by (cases gc) (simp_all add: is_turn_def)
  then show ?case using clue(3) by (auto simp: control_inv_def record_clue_def)
next
  case (guess g gc team a ks g' gc' k ks')
  have turn: "is_turn gc" and team: "team = current_team gc"
    and single: "single_team g \<longrightarrow> gc \<noteq> BLUE_TURN" and s0: "single_team g = single_team g0"
    using guess(2) by (auto simp: control_inv_def)
  from guess(1) show ?case
  proof (cases rule: guess_body_cases)
    case sentinel
    then show ?thesis using guess(2) by (auto simp: control_inv_def)
  next
    case (same s i g1)
    have st: "single_team g' = single_team g"
      using same(6) accept_guess_single [OF same(4)] by (simp add: record_guess_def)
    have nb: "single_team g' \<longrightarrow> gc' \<noteq> BLUE_TURN"
      using same(7) st accept_guess_single [OF same(4)] by (auto simp: force_single_def)
    have loc: "k \<longrightarrow> gc' = gc"
      using same(7) single accept_guess_single [OF same(4)] by (auto simp: force_single_def)
    show ?thesis using st s0 nb loc turn team by (auto simp: control_inv_def)
  next
    case (changed s i g1 res)
    have st: "single_team g' = single_team g"
      using changed(8) accept_guess_single [OF changed(4)] by (simp add: record_guess_def)
    have nb: "single_team g' \<longrightarrow> gc' \<noteq> BLUE_TURN"
      using changed(9) st accept_guess_single [OF changed(4)] by (auto simp: force_single_def)
    show ?thesis using st s0 nb changed(6) by (auto simp: control_inv_def)
  qed
qed

lemma control_trace:
  assumes "trace norm c es c'" and "control_inv g0 c"
  shows "control_inv g0 c'"
  using assms by (induction rule: trace.induct) (auto intro: control_step)

lemma reachable_control: "reachable norm g0 c \<Longrightarrow> control_inv g0 c"
  using control_start control_trace unfolding reachable_def by blast

lemma no_step_after_win:
  assumes "gc = RED_WIN \<or> gc = BLUE_WIN"
  shows "\<not> step norm (g, gc, Outer) e c'"
  using assms by (auto elim: step.cases)

lemma run_loop_win:
  assumes "gc = RED_WIN \<or> gc = BLUE_WIN"
  shows "run_loop norm g gc tc clues answers keeps = Inr (g, gc, tc, clues, answers, keeps)"
  using assms by (cases clues) auto

text \<open>
  Claim C5. A state of a run in which the phase is \<open>RED_WIN\<close> or \<open>BLUE_WIN\<close> is at the
  test of the outer loop, never inside a guessing round, and no step leaves it: no clue is
  asked for and no guess is resolved, so the board, the history and the phase stay as
  they are. The loop of \<open>run\<close> returns there with the game object and every input
  untouched. The phase is exactly one of the two wins. After the loop \<open>run\<close> only writes
  the field \<open>game_winner\<close>.
\<close>

theorem win_is_terminal:
  assumes "reachable norm g0 (g, game_condition, l)"
    and "game_condition = RED_WIN \<or> game_condition = BLUE_WIN"
  shows "l = Outer \<and>
         (\<forall>e c'. \<not> step norm (g, game_condition, l) e c') \<and>
         run_loop norm g game_condition turn_counter clues answers keeps =
           Inr (g, game_condition, turn_counter, clues, answers, keeps) \<and>
         (game_condition = RED_WIN) \<noteq> (game_condition = BLUE_WIN)"
proof -
  have "control_inv g0 (g, game_condition, l)" by (rule reachable_control [OF assms(1)])
  then have l: "l = Outer" using assms(2)
    by (cases l) (auto simp: control_inv_def is_turn_def)
  have ns: "\<forall>e c'. \<not> step norm (g, game_condition, l) e c'"
    using no_step_after_win [OF assms(2)] l by simp
  have one: "(game_condition = RED_WIN) \<noteq> (game_condition = BLUE_WIN)" using assms(2) by auto
  show ?thesis using l ns run_loop_win [OF assms(2)] one by blast
qed

text \<open>Runs on the demonstration board.\<close>

lemma demo_step_clue:
  "step ascii_normalise (demo_game single, RED_TURN, Outer) Clue_given (demo_clued single, RED_TURN, Inner ''Red'')"
  using step.clue [where game_condition = RED_TURN and g = "demo_game single" and clue = "''fruit''"
      and clue_num = 1 and upper_strip = ascii_normalise]
  by (simp add: current_team_def demo_clued_def)

lemma demo_body_dog:
  "guess_body ascii_normalise (demo_clued False) RED_TURN ''Red'' (Some ''dog'') [] =
     Inr (resolved (demo_clued False) ''Red'' ''dog'' 3 False, BLUE_WIN, False, [])"
  by code_simp

lemma demo_trace_dog:
  "trace ascii_normalise (demo_game False, RED_TURN, Outer) [Clue_given, Guess_made]
     (resolved (demo_clued False) ''Red'' ''dog'' 3 False, BLUE_WIN, Outer)"
proof -
  have "step ascii_normalise (demo_clued False, RED_TURN, Inner ''Red'') Guess_made
          (resolved (demo_clued False) ''Red'' ''dog'' 3 False, BLUE_WIN, Outer)"
    using step.guess [OF demo_body_dog] by (simp add: is_sentinel_def)
  then show ?thesis
    using trace.snoc [OF trace.snoc [OF trace.nil demo_step_clue]] by fastforce
qed

lemma demo_body_apple_True:
  "guess_body ascii_normalise (demo_clued True) RED_TURN ''Red'' (Some ''apple'') [True] =
     Inr (demo_after_apple True True, RED_TURN, True, [])"
  by code_simp

lemma demo_body_apple_False:
  "guess_body ascii_normalise (demo_clued False) RED_TURN ''Red'' (Some ''apple'') [True] =
     Inr (demo_after_apple False True, RED_TURN, True, [])"
  by code_simp

lemma demo_trace_apple:
  "trace ascii_normalise (demo_game True, RED_TURN, Outer) [Clue_given, Guess_made]
     (demo_after_apple True True, RED_TURN, Inner ''Red'')"
  "trace ascii_normalise (demo_game False, RED_TURN, Outer) [Clue_given, Guess_made]
     (demo_after_apple False True, RED_TURN, Inner ''Red'')"
proof -
  have "step ascii_normalise (demo_clued True, RED_TURN, Inner ''Red'') Guess_made
          (demo_after_apple True True, RED_TURN, Inner ''Red'')"
    using step.guess [OF demo_body_apple_True] by (simp add: is_sentinel_def)
  then show "trace ascii_normalise (demo_game True, RED_TURN, Outer) [Clue_given, Guess_made]
     (demo_after_apple True True, RED_TURN, Inner ''Red'')"
    using trace.snoc [OF trace.snoc [OF trace.nil demo_step_clue]] by fastforce
  have "step ascii_normalise (demo_clued False, RED_TURN, Inner ''Red'') Guess_made
          (demo_after_apple False True, RED_TURN, Inner ''Red'')"
    using step.guess [OF demo_body_apple_False] by (simp add: is_sentinel_def)
  then show "trace ascii_normalise (demo_game False, RED_TURN, Outer) [Clue_given, Guess_made]
     (demo_after_apple False True, RED_TURN, Inner ''Red'')"
    using trace.snoc [OF trace.snoc [OF trace.nil demo_step_clue]] by fastforce
qed

theorem win_is_terminal_witness:
  "reachable ascii_normalise (demo_game False) (resolved (demo_clued False) ''Red'' ''dog'' 3 False, BLUE_WIN, Outer) \<and>
   run_loop ascii_normalise (resolved (demo_clued False) ''Red'' ''dog'' 3 False) BLUE_WIN 1 [(''pets'', 2)]
       [Some ''cat''] [True] =
     Inr (resolved (demo_clued False) ''Red'' ''dog'' 3 False, BLUE_WIN, 1, [(''pets'', 2)],
          [Some ''cat''], [True]) \<and>
   (\<forall>e c'. \<not> step ascii_normalise (resolved (demo_clued False) ''Red'' ''dog'' 3 False, BLUE_WIN, Outer) e c')"
proof -
  have r: "reachable ascii_normalise (demo_game False)
      (resolved (demo_clued False) ''Red'' ''dog'' 3 False, BLUE_WIN, Outer)"
    unfolding reachable_def using demo_trace_dog by blast
  have w: "BLUE_WIN = RED_WIN \<or> BLUE_WIN = BLUE_WIN" by simp
  show ?thesis
    using win_is_terminal [where norm = ascii_normalise, OF r w, of 1 "[(''pets'', 2)]" "[Some ''cat'']" "[True]"] r by blast
qed

section \<open>Single-team mode\<close>

lemma accept_guess_set_single:
  "accept_guess (g\<lparr>single_team := b\<rparr>) i gc =
     (case accept_guess g i gc of Inl e \<Rightarrow> Inl e
      | Inr (g1, res) \<Rightarrow> Inr (g1\<lparr>single_team := b\<rparr>, res))"
  by (simp add: accept_guess_def set_word_def)

text \<open>
  The guess body in single-team mode gives what it gives in two-team mode, with
  \<open>BLUE_TURN\<close> replaced by \<open>RED_TURN\<close>.
\<close>

lemma guess_body_forced:
  assumes "guess_body norm (g\<lparr>single_team := False\<rparr>) gc team a ks = Inr (g', gc', k, ks')"
    and "\<not> is_sentinel a"
  shows "guess_body norm (g\<lparr>single_team := True\<rparr>) gc team a ks =
           Inr (g'\<lparr>single_team := True\<rparr>, if gc' = BLUE_TURN then RED_TURN else gc', k, ks')"
  using assms(1)
proof (cases rule: guess_body_cases)
  case sentinel
  then show ?thesis using assms(2) by simp
next
  case (same s i g1)
  obtain g2 where acc: "accept_guess g i gc = Inr (g2, gc)" and g1: "g1 = g2\<lparr>single_team := False\<rparr>"
    using same(4) accept_guess_set_single [where g = g and b = False and i = i and gc = gc]
    by (auto split: sum.splits)
  have acc': "accept_guess (g\<lparr>single_team := True\<rparr>) i gc = Inr (g1\<lparr>single_team := True\<rparr>, gc)"
    using acc g1 accept_guess_set_single [where g = g and b = True and i = i and gc = gc] by simp
  have f: "\<not> single_team g1" using accept_guess_single [OF same(4)] by simp
  show ?thesis
    using same(1,2,3,5,6,7) acc' f
    by (simp add: guess_body_def is_sentinel_def Let_def record_guess_def force_single_def)
next
  case (changed s i g1 res)
  obtain g2 where acc: "accept_guess g i gc = Inr (g2, res)" and g1: "g1 = g2\<lparr>single_team := False\<rparr>"
    using changed(4) accept_guess_set_single [where g = g and b = False and i = i and gc = gc]
    by (auto split: sum.splits)
  have acc': "accept_guess (g\<lparr>single_team := True\<rparr>) i gc = Inr (g1\<lparr>single_team := True\<rparr>, res)"
    using acc g1 accept_guess_set_single [where g = g and b = True and i = i and gc = gc] by simp
  have f: "\<not> single_team g1" using accept_guess_single [OF changed(4)] by simp
  show ?thesis
    using changed(1,2,3,5,6,7,8,9) acc' f
    by (simp add: guess_body_def is_sentinel_def Let_def record_guess_def force_single_def)
qed

text \<open>
  Claim C8. In single-team mode every state of a run has a phase other than \<open>BLUE_TURN\<close>,
  and every guessing round is the red team's. Whenever the guess body would, in two-team
  mode, end in \<open>BLUE_TURN\<close>, in single-team mode it does the same to the game object and
  ends in \<open>RED_TURN\<close>.
\<close>

theorem single_team_never_blue:
  assumes "single_team g0" and "reachable norm g0 (g, game_condition, l)"
  shows "single_team g \<and> game_condition \<noteq> BLUE_TURN \<and>
         (\<forall>team. l = Inner team \<longrightarrow> team = ''Red'' \<and> game_condition = RED_TURN) \<and>
         (\<forall>team a ks g' k ks'.
            guess_body norm (g\<lparr>single_team := False\<rparr>) game_condition team a ks = Inr (g', BLUE_TURN, k, ks')
            \<longrightarrow> guess_body norm g game_condition team a ks = Inr (g'\<lparr>single_team := True\<rparr>, RED_TURN, k, ks'))"
proof -
  have c: "control_inv g0 (g, game_condition, l)" by (rule reachable_control [OF assms(2)])
  have s: "single_team g" and nb: "game_condition \<noteq> BLUE_TURN"
    using c assms(1) by (auto simp: control_inv_def)
  have loc: "\<forall>team. l = Inner team \<longrightarrow> team = ''Red'' \<and> game_condition = RED_TURN"
    using c nb by (auto simp: control_inv_def is_turn_def current_team_def)
  have g: "g\<lparr>single_team := True\<rparr> = g" using s by simp
  have forced: "guess_body norm g game_condition team a ks = Inr (g'\<lparr>single_team := True\<rparr>, RED_TURN, k, ks')"
    if b: "guess_body norm (g\<lparr>single_team := False\<rparr>) game_condition team a ks = Inr (g', BLUE_TURN, k, ks')"
    for team a ks g' k ks'
  proof -
    have "\<not> is_sentinel a"
    proof
      assume "is_sentinel a"
      then have "guess_body norm (g\<lparr>single_team := False\<rparr>) game_condition team a ks =
          Inr (g\<lparr>single_team := False\<rparr>, game_condition, False, ks)"
        by (auto simp: guess_body_def is_sentinel_def)
      then show False using b nb by simp
    qed
    then show ?thesis using guess_body_forced [OF b] g by simp
  qed
  show ?thesis
  proof (intro conjI allI impI)
    show "single_team g" by (rule s)
    show "game_condition \<noteq> BLUE_TURN" by (rule nb)
    show "team = ''Red''" if "l = Inner team" for team using loc that by simp
    show "game_condition = RED_TURN" if "l = Inner team" for team using loc that by simp
    show "guess_body norm g game_condition team a ks = Inr (g'\<lparr>single_team := True\<rparr>, RED_TURN, k, ks')"
      if "guess_body norm (g\<lparr>single_team := False\<rparr>) game_condition team a ks = Inr (g', BLUE_TURN, k, ks')"
      for team a ks g' k ks'
      using that by (rule forced)
  qed
qed

theorem single_team_never_blue_witness:
  "single_team (demo_game True) \<and>
   reachable ascii_normalise (demo_game True) (demo_after_apple True True, RED_TURN, Inner ''Red'') \<and>
   single_team (demo_after_apple True True) \<and>
   guess_body ascii_normalise ((demo_after_apple True True)\<lparr>single_team := False\<rparr>) RED_TURN ''Red'' (Some ''cat'') [] =
     Inr (resolved ((demo_after_apple True True)\<lparr>single_team := False\<rparr>) ''Red'' ''cat'' 2 False,
          BLUE_TURN, False, []) \<and>
   guess_body ascii_normalise (demo_after_apple True True) RED_TURN ''Red'' (Some ''cat'') [] =
     Inr ((resolved ((demo_after_apple True True)\<lparr>single_team := False\<rparr>) ''Red'' ''cat'' 2 False)
            \<lparr>single_team := True\<rparr>, RED_TURN, False, [])"
proof -
  have s: "single_team (demo_game True)" by (simp add: demo_game_def)
  have r: "reachable ascii_normalise (demo_game True) (demo_after_apple True True, RED_TURN, Inner ''Red'')"
    unfolding reachable_def using demo_trace_apple(1) by blast
  have b: "guess_body ascii_normalise ((demo_after_apple True True)\<lparr>single_team := False\<rparr>) RED_TURN ''Red''
      (Some ''cat'') [] =
     Inr (resolved ((demo_after_apple True True)\<lparr>single_team := False\<rparr>) ''Red'' ''cat'' 2 False,
          BLUE_TURN, False, [])"
    by code_simp
  note t = single_team_never_blue [where norm = ascii_normalise, OF s r]
  have s': "single_team (demo_after_apple True True)" using t by (rule conjunct1)
  have f: "\<forall>team a ks g' k ks'.
      guess_body ascii_normalise ((demo_after_apple True True)\<lparr>single_team := False\<rparr>) RED_TURN team a ks =
        Inr (g', BLUE_TURN, k, ks') \<longrightarrow>
      guess_body ascii_normalise (demo_after_apple True True) RED_TURN team a ks =
        Inr (g'\<lparr>single_team := True\<rparr>, RED_TURN, k, ks')"
    using t by (elim conjE)
  have b': "guess_body ascii_normalise (demo_after_apple True True) RED_TURN ''Red'' (Some ''cat'') [] =
     Inr ((resolved ((demo_after_apple True True)\<lparr>single_team := False\<rparr>) ''Red'' ''cat'' 2 False)
            \<lparr>single_team := True\<rparr>, RED_TURN, False, [])"
    using f [rule_format, OF b] .
  show ?thesis by (intro conjI s r s' b b')
qed

section \<open>The move history\<close>

lemma accept_guess_history: "accept_guess g i gc = Inr (g1, res) \<Longrightarrow> move_history g1 = move_history g"
  using accept_guess_Inr(3) [of g i gc g1 res] by simp

lemma step_history:
  assumes "step norm (g, gc, l) e (g', gc', l')"
  shows "\<exists>new. move_history g' = move_history g @ new \<and>
               map event_of new = (if e = No_guess then [] else [e])"
  using assms
proof (cases rule: step.cases)
  case (clue cl n)
  then show ?thesis by (simp add: record_clue_def)
next
  case (guess team a ks k ks')
  from guess(4) show ?thesis
  proof (cases rule: guess_body_cases)
    case sentinel
    then show ?thesis using guess(2) by simp
  next
    case (same s i g1)
    then show ?thesis using guess(2) accept_guess_history [OF same(4)]
      by (simp add: record_guess_def)
  next
    case (changed s i g1 res)
    then show ?thesis using guess(2) accept_guess_history [OF changed(4)]
      by (simp add: record_guess_def)
  qed
qed

lemma trace_history:
  assumes "trace norm c es c'"
  shows "\<exists>new. move_history (fst c') = move_history (fst c) @ new \<and>
               map event_of new = filter (\<lambda>e. e \<noteq> No_guess) es"
  using assms
proof (induction rule: trace.induct)
  case (nil c)
  then show ?case by simp
next
  case (snoc c es c' e c'')
  obtain new where n: "move_history (fst c') = move_history (fst c) @ new"
    "map event_of new = filter (\<lambda>e. e \<noteq> No_guess) es"
    using snoc.IH by blast
  obtain new' where n': "move_history (fst c'') = move_history (fst c') @ new'"
    "map event_of new' = (if e = No_guess then [] else [e])"
    using step_history [of norm "fst c'" "fst (snd c')" "snd (snd c')" e
        "fst c''" "fst (snd c'')" "snd (snd c'')"] snoc.hyps(2)
    by auto
  have "move_history (fst c'') = move_history (fst c) @ (new @ new')" using n(1) n'(1) by simp
  moreover have "map event_of (new @ new') = filter (\<lambda>e. e \<noteq> No_guess) (es @ [e])"
    using n(2) n'(2) by simp
  ultimately show ?case by blast
qed

lemma length_filter_events:
  "length (filter (\<lambda>e. e \<noteq> No_guess) es) = count_list es Clue_given + count_list es Guess_made"
proof (induction es)
  case Nil then show ?case by simp
next
  case (Cons e es) then show ?case by (cases e) simp_all
qed

text \<open>
  Claim C9. Along any run, from any state to any later state: the earlier history is
  an initial segment of the later one, so no entry is changed or removed; the entries
  added are, in order, the records of the clue steps and of the resolved guesses of the
  run, one entry each and none for a sentinel answer; so with \<open>n\<close> clues and \<open>m\<close>
  recorded guesses the history has grown by \<open>n + m\<close> entries, and from the empty history
  of a new game it has exactly \<open>n + m\<close>.
\<close>

theorem history_append_only:
  assumes "trace norm (g, game_condition, l) es (g', game_condition', l')"
  shows "take (length (move_history g)) (move_history g') = move_history g \<and>
         map event_of (drop (length (move_history g)) (move_history g')) =
           filter (\<lambda>e. e \<noteq> No_guess) es \<and>
         length (move_history g') =
           length (move_history g) + count_list es Clue_given + count_list es Guess_made \<and>
         (move_history g = [] \<longrightarrow>
            length (move_history g') = count_list es Clue_given + count_list es Guess_made)"
proof -
  obtain new where n: "move_history g' = move_history g @ new"
    "map event_of new = filter (\<lambda>e. e \<noteq> No_guess) es"
    using trace_history [OF assms] by auto
  have "length new = length (filter (\<lambda>e. e \<noteq> No_guess) es)"
    using n(2) by (metis length_map)
  then have len: "length new = count_list es Clue_given + count_list es Guess_made"
    by (simp add: length_filter_events)
  show ?thesis using n len by simp
qed

theorem history_append_only_witness:
  "trace ascii_normalise (demo_game False, RED_TURN, Outer) [Clue_given, Guess_made]
     (demo_after_apple False True, RED_TURN, Inner ''Red'') \<and>
   move_history (demo_game False) = [] \<and>
   map event_of (move_history (demo_after_apple False True)) = [Clue_given, Guess_made] \<and>
   length (move_history (demo_after_apple False True)) = 2"
proof -
  have h: "move_history (demo_game False) = []" by (simp add: demo_game_def)
  show ?thesis
    using history_append_only [where norm = ascii_normalise, OF demo_trace_apple(2)]
      demo_trace_apple(2) h
    by simp
qed

text \<open>The loops of \<open>run\<close> take the steps of the transition system.\<close>

lemma trace_step_first:
  assumes "step norm c e c'" and "trace norm c' es c''"
  shows "trace norm c (e # es) c''"
  using assms(2,1)
proof (induction rule: trace.induct)
  case (nil c')
  then show ?case using trace.snoc [OF trace.nil, of norm c e c'] by simp
next
  case (snoc c' es c2 e2 c3)
  then show ?case using trace.snoc [of norm c "e # es" c2 e2 c3] by simp
qed

lemma trace_append:
  assumes "trace norm c es c'" and "trace norm c' es' c''"
  shows "trace norm c (es @ es') c''"
  using assms(2,1)
proof (induction rule: trace.induct)
  case (nil c')
  then show ?case by simp
next
  case (snoc c' es' c2 e c3)
  then show ?case using trace.snoc [of norm c "es @ es'" c2 e c3] by simp
qed

lemma guess_loop_trace:
  assumes "guess_loop norm g gc team answers keeps = Inr (g', gc', answers', keeps')"
  shows "\<exists>es. trace norm (g, gc, Inner team) es (g', gc', Outer) \<and> count_list es Clue_given = 0"
  using assms
proof (induction answers arbitrary: g gc keeps)
  case Nil
  then show ?case by simp
next
  case (Cons a answers)
  from Cons.prems obtain g1 gc1 k ks1
    where b: "guess_body norm g gc team a keeps = Inr (g1, gc1, k, ks1)"
    by (auto split: sum.splits)
  let ?e = "if is_sentinel a then No_guess else Guess_made"
  have s: "step norm (g, gc, Inner team) ?e (g1, gc1, if k then Inner team else Outer)"
    by (rule step.guess [OF b])
  have e: "?e \<noteq> Clue_given" by simp
  show ?case
  proof (cases k)
    case True
    then have "guess_loop norm g1 gc1 team answers ks1 = Inr (g', gc', answers', keeps')"
      using Cons.prems b by simp
    then obtain es where es: "trace norm (g1, gc1, Inner team) es (g', gc', Outer)"
      "count_list es Clue_given = 0"
      using Cons.IH by blast
    have "trace norm (g, gc, Inner team) (?e # es) (g', gc', Outer)"
      using trace_step_first [OF _ es(1)] s True by simp
    moreover have "count_list (?e # es) Clue_given = 0" using es(2) e by simp
    ultimately show ?thesis by blast
  next
    case False
    then have "g1 = g'" "gc1 = gc'" using Cons.prems b by simp_all
    then have "trace norm (g, gc, Inner team) [?e] (g', gc', Outer)"
      using trace_step_first [OF _ trace.nil] s False by simp
    moreover have "count_list [?e] Clue_given = 0" using e by simp
    ultimately show ?thesis by blast
  qed
qed

lemma run_loop_trace:
  assumes "run_loop norm g gc tc clues answers keeps = Inr (g', gc', tc', clues', answers', keeps')"
  shows "\<exists>es. trace norm (g, gc, Outer) es (g', gc', Outer) \<and> tc' = tc + count_list es Clue_given"
  using assms
proof (induction clues arbitrary: g gc tc answers keeps)
  case Nil
  then have "g' = g" "gc' = gc" "tc' = tc" by (auto split: if_splits)
  then show ?case using trace.nil [of norm "(g, gc, Outer)"] by fastforce
next
  case (Cons c clues)
  obtain clue n where c: "c = (clue, n)" by (cases c)
  show ?case
  proof (cases "gc \<noteq> BLUE_WIN \<and> gc \<noteq> RED_WIN")
    case False
    then have "g' = g" "gc' = gc" "tc' = tc" using Cons.prems c by auto
    then show ?thesis using trace.nil [of norm "(g, gc, Outer)"] by fastforce
  next
    case True
    let ?g1 = "record_clue g (current_team gc) clue n"
    from Cons.prems True c obtain g2 gc2 as2 ks2
      where gl: "guess_loop norm ?g1 gc (current_team gc) answers keeps = Inr (g2, gc2, as2, ks2)"
        and rest: "run_loop norm g2 gc2 (tc + 1) clues as2 ks2 = Inr (g', gc', tc', clues', answers', keeps')"
      by (auto split: sum.splits)
    have s: "step norm (g, gc, Outer) Clue_given (?g1, gc, Inner (current_team gc))"
      using True by (simp add: step.clue)
    obtain es1 where t1: "trace norm (?g1, gc, Inner (current_team gc)) es1 (g2, gc2, Outer)"
      and ng: "count_list es1 Clue_given = 0"
      using guess_loop_trace [OF gl] by blast
    obtain es2 where t2: "trace norm (g2, gc2, Outer) es2 (g', gc', Outer)"
      and n2: "tc' = tc + 1 + count_list es2 Clue_given"
      using Cons.IH [OF rest] by blast
    have "trace norm (g, gc, Outer) (Clue_given # es1 @ es2) (g', gc', Outer)"
      using trace_step_first [OF s trace_append [OF t1 t2]] by simp
    then show ?thesis using n2 ng by fastforce
  qed
qed


lemma run_reachable:
  assumes "run_loop norm g0 RED_TURN 0 clues answers keeps = Inr (g, gc, tc, clues', answers', keeps')"
  shows "reachable norm g0 (g, gc, Outer)"
  using run_loop_trace [OF assms] unfolding reachable_def by blast


section \<open>An answer that is not on the board\<close>




section \<open>The sentinel answer and the next clue\<close>

text \<open>A round that the sentinel ends, after any recorded guesses, ends in its own phase.\<close>

lemma round_ends_in_phase:
  assumes "guess_loop norm g gc team (pre @ a # answers) keeps = Inr (g', gc', answers, keeps')"
    and "is_sentinel a" and "\<not> (single_team g \<and> gc = BLUE_TURN)"
  shows "gc' = gc"
  using assms
proof (induction pre arbitrary: g keeps)
  case Nil
  have "guess_loop norm g gc team (a # answers) keeps = Inr (g, gc, answers, keeps)"
    using Nil(2) by (auto simp: guess_body_def is_sentinel_def)
  then show ?case using Nil(1) by simp
next
  case (Cons x pre)
  from Cons.prems(1) obtain g1 gc1 k ks1
    where b: "guess_body norm g gc team x keeps = Inr (g1, gc1, k, ks1)"
    by (auto split: sum.splits)
  show ?case
  proof (cases k)
    case False
    then have "pre @ a # answers = answers" using Cons.prems(1) b by simp
    then have "length (pre @ a # answers) = length answers" by simp
    then show ?thesis by simp
  next
    case True
    then have rest: "guess_loop norm g1 gc1 team (pre @ a # answers) ks1 =
        Inr (g', gc', answers, keeps')"
      using Cons.prems(1) b by simp
    from b have same: "gc1 = gc \<and> single_team g1 = single_team g"
    proof (cases rule: guess_body_cases)
      case sentinel
      then show ?thesis using True by simp
    next
      case (same s i g2)
      have "single_team g1 = single_team g"
        using same(6) accept_guess_single [OF same(4)] by (simp add: record_guess_def)
      moreover have "gc1 = gc"
        using same(7) True Cons.prems(3) accept_guess_single [OF same(4)]
        by (auto simp: force_single_def)
      ultimately show ?thesis by simp
    next
      case (changed s i g2 res)
      then show ?thesis using True by simp
    qed
    then have "gc' = gc1"
      using Cons.IH [OF _ Cons.prems(2)] rest Cons.prems(3) by auto
    then show ?thesis using same by simp
  qed
qed

text \<open>
  Claim C10. In a state in which a team is guessing (and, in single-team mode, that team
  is red) the sentinel ends the round with the game object and the phase as they are.
  That is so wherever in the round the sentinel comes: a round that records any number
  of guesses and is then ended by the sentinel ends in the phase in which it began.
  The next pass of the outer loop therefore records the next clue under the tag of the
  same team, adds one to \<open>turn_counter\<close> and starts a round of the same team in the same
  phase. When the sentinel is the first answer of a round, the pass of the outer loop
  does no more than record the clue and add one to \<open>turn_counter\<close>.
\<close>

theorem sentinel_keeps_phase:
  assumes "is_turn game_condition" and "\<not> (single_team g \<and> game_condition = BLUE_TURN)"
    and "is_sentinel guess_answer"
  shows "guess_loop norm g game_condition team (guess_answer # answers) keeps =
           Inr (g, game_condition, answers, keeps) \<and>
         (guess_loop norm g game_condition team (pre @ guess_answer # answers) keeps =
            Inr (g', game_condition', answers, keeps') \<longrightarrow>
          game_condition' = game_condition \<and>
          run_loop norm g' game_condition' turn_counter ((clue, clue_num) # clues) answers keeps' =
            (case guess_loop norm (record_clue g' (current_team game_condition) clue clue_num)
                    game_condition (current_team game_condition) answers keeps' of
               Inl e \<Rightarrow> Inl e
             | Inr (g2, game_condition2, answers2, keeps2) \<Rightarrow>
                 run_loop norm g2 game_condition2 (turn_counter + 1) clues answers2 keeps2)) \<and>
         run_loop norm g game_condition turn_counter ((clue, clue_num) # clues)
             (guess_answer # answers) keeps =
           run_loop norm (record_clue g (current_team game_condition) clue clue_num)
             game_condition (turn_counter + 1) clues answers keeps"
proof (intro conjI impI)
  have nw: "game_condition \<noteq> BLUE_WIN \<and> game_condition \<noteq> RED_WIN"
    using assms(1) by (auto simp: is_turn_def)
  show round: "guess_loop norm g0 game_condition team0 (guess_answer # answers) keeps =
      Inr (g0, game_condition, answers, keeps)" for g0 team0
    using assms(3) by (auto simp: guess_body_def is_sentinel_def)
  show "run_loop norm g game_condition turn_counter ((clue, clue_num) # clues)
             (guess_answer # answers) keeps =
           run_loop norm (record_clue g (current_team game_condition) clue clue_num)
             game_condition (turn_counter + 1) clues answers keeps"
    using nw round by simp
  assume r: "guess_loop norm g game_condition team (pre @ guess_answer # answers) keeps =
            Inr (g', game_condition', answers, keeps')"
  show same: "game_condition' = game_condition"
    by (rule round_ends_in_phase [OF r assms(3) assms(2)])
  show "run_loop norm g' game_condition' turn_counter ((clue, clue_num) # clues) answers keeps' =
            (case guess_loop norm (record_clue g' (current_team game_condition) clue clue_num)
                    game_condition (current_team game_condition) answers keeps' of
               Inl e \<Rightarrow> Inl e
             | Inr (g2, game_condition2, answers2, keeps2) \<Rightarrow>
                 run_loop norm g2 game_condition2 (turn_counter + 1) clues answers2 keeps2)"
    unfolding same by (simp only: run_loop.simps nw simp_thms if_True)
qed

theorem sentinel_keeps_phase_witness:
  "guess_loop ascii_normalise (demo_clued False) RED_TURN ''Red''
       ([Some ''apple''] @ None # [Some ''dog'']) [True] =
     Inr (demo_after_apple False True, RED_TURN, [Some ''dog''], []) \<and>
   run_loop ascii_normalise (demo_after_apple False True) RED_TURN 1 [(''pets'', 1)]
       [Some ''dog''] [] =
     Inr (resolved (record_clue (demo_after_apple False True) ''Red'' ''pets'' 1)
            ''Red'' ''dog'' 3 False,
          BLUE_WIN, 2, [], [], [])"
proof -
  have h1: "is_turn RED_TURN" by (simp add: is_turn_def)
  have h2: "\<not> (single_team (demo_clued False) \<and> RED_TURN = BLUE_TURN)" by simp
  have h3: "is_sentinel None" by (simp add: is_sentinel_def)
  have r: "guess_loop ascii_normalise (demo_clued False) RED_TURN ''Red''
       ([Some ''apple''] @ None # [Some ''dog'']) [True] =
     Inr (demo_after_apple False True, RED_TURN, [Some ''dog''], [])"
    by code_simp
  note t = sentinel_keeps_phase [where norm = ascii_normalise, OF h1 h2 h3,
      of "''Red''" "[Some ''dog'']" "[True]" "[Some ''apple'']" "demo_after_apple False True"
        RED_TURN "[]" 1 "''pets''" 1 "[]"]
  have e: "run_loop ascii_normalise (demo_after_apple False True) RED_TURN 1 [(''pets'', 1)]
       [Some ''dog''] [] =
      (case guess_loop ascii_normalise
              (record_clue (demo_after_apple False True) (current_team RED_TURN) ''pets'' 1)
              RED_TURN (current_team RED_TURN) [Some ''dog''] [] of
         Inl e \<Rightarrow> Inl e
       | Inr (g2, game_condition2, answers2, keeps2) \<Rightarrow>
           run_loop ascii_normalise g2 game_condition2 (1 + 1) [] answers2 keeps2)"
    using t r by blast
  have f: "(case guess_loop ascii_normalise
              (record_clue (demo_after_apple False True) (current_team RED_TURN) ''pets'' 1)
              RED_TURN (current_team RED_TURN) [Some ''dog''] [] of
         Inl e \<Rightarrow> Inl e
       | Inr (g2, game_condition2, answers2, keeps2) \<Rightarrow>
           run_loop ascii_normalise g2 game_condition2 (1 + 1) [] answers2 keeps2) =
     Inr (resolved (record_clue (demo_after_apple False True) ''Red'' ''pets'' 1)
            ''Red'' ''dog'' 3 False,
          BLUE_WIN, 2, [], [], [])"
    by code_simp
  show ?thesis using r e f by simp
qed

section \<open>The quotas\<close>

lemma lost_by_record:
  "lost_by team (record_guess g1 team' s i k) \<longleftrightarrow>
     team' = team \<and> words_on_board g1 ! i = ''*Assassin*''"
  by (simp add: lost_by_def record_guess_def)

lemma win_inv_guess:
  assumes inv: "invariant g0 (g, gc, Inner team)"
    and body: "guess_body norm g gc team a ks = Inr (g', gc', k, ks')"
    and up: "upper_cased norm"
  shows "win_inv (g', gc', l')"
proof -
  have turn: "is_turn gc" and team: "team = current_team gc"
    using inv by (auto simp: invariant_def)
  from body show ?thesis
  proof (cases rule: guess_body_cases)
    case sentinel
    then show ?thesis using turn by (auto simp: win_inv_def is_turn_def)
  next
    case (same s i g1)
    have "is_turn gc'"
      using same(7) turn by (auto simp: force_single_def pass_turn_def is_turn_def)
    then show ?thesis by (auto simp: win_inv_def is_turn_def)
  next
    case (changed s i g1 res)
    note r = resolved_guess [where norm = norm, OF changed(3) changed(4) turn inv up]
    note a = accept_guess_Inr [OF changed(4)]
    have w: "words_on_board g' = words_on_board g1" "revealed g' = revealed g1"
      using changed(8) by (simp_all add: record_guess_def revealed_def fun_eq_iff)
    have shown: "words_on_board g1 ! i = marker_of (key_grid g ! i)"
      using a(2,3) by simp
    have lost: "lost_by t g' \<longleftrightarrow> team = t \<and> key_grid g ! i = ''Assassin''" for t
      using changed(8) shown by (simp add: lost_by_record marker_of_eq)
    have gc': "gc' = force_single g1 res" by (rule changed(9))
    consider (red) "key_grid g ! i = ''Red''" | (blue) "key_grid g ! i = ''Blue''"
      | (assassin) "key_grid g ! i = ''Assassin''"
      | (other) "key_grid g ! i \<noteq> ''Red''" "key_grid g ! i \<noteq> ''Blue''"
          "key_grid g ! i \<noteq> ''Assassin''"
      by blast
    then show ?thesis
    proof cases
      case red
      have "res = (if 9 \<le> revealed g1 ''*Red*'' then RED_WIN else RED_TURN)"
        using a(4) [OF red] r(3) inv by (auto simp: invariant_def revealed_def)
      then show ?thesis using gc' r(9) w(2)
        by (auto simp: win_inv_def force_single_def split: if_splits)
    next
      case blue
      have "res = (if 8 \<le> revealed g1 ''*Blue*'' then BLUE_WIN else BLUE_TURN)"
        using a(5) [OF blue] r(4) inv by (auto simp: invariant_def revealed_def)
      then show ?thesis using gc' r(10) w(2)
        by (auto simp: win_inv_def force_single_def split: if_splits)
    next
      case assassin
      have "res = other_win gc" by (rule a(6) [OF assassin])
      then show ?thesis using gc' lost assassin team turn
        by (auto simp: win_inv_def force_single_def other_win_def current_team_def is_turn_def)
    next
      case other
      have "res = other_turn gc" by (rule a(7) [OF other])
      then show ?thesis using gc'
        by (auto simp: win_inv_def force_single_def other_turn_def)
    qed
  qed
qed

lemma win_inv_step:
  assumes "step norm c e c'" and "invariant g0 c" and "upper_cased norm"
  shows "win_inv c'"
  using assms
proof (induction rule: step.induct)
  case (clue gc g cl n)
  then show ?case by (auto simp: win_inv_def)
next
  case (guess g gc team a ks g' gc' k ks')
  then show ?case using win_inv_guess by blast
qed

lemma win_inv_trace:
  assumes "trace norm c es c'" and "invariant g0 c" and "win_inv c" and "upper_cased norm"
  shows "win_inv c'"
  using assms
proof (induction rule: trace.induct)
  case (nil c)
  then show ?case by simp
next
  case (snoc c es c' e c'')
  have "invariant g0 c'" using invariant_trace [OF snoc(1) snoc(4) snoc(6)] .
  then show ?case using win_inv_step [OF snoc(2) _ snoc(6)] by blast
qed

lemma reachable_win_inv:
  assumes "Game_init pool key single = Inr g0"
    and "unrevealed (take 25 pool)" and "shuffled_key key"
    and "upper_cased norm" and "reachable norm g0 c"
  shows "win_inv c"
proof -
  obtain es where t: "trace norm (g0, RED_TURN, Outer) es c"
    using assms(5) by (auto simp: reachable_def)
  have "win_inv (g0, RED_TURN, Outer)" by (simp add: win_inv_def)
  then show ?thesis
    using win_inv_trace [OF t invariant_start [OF assms(1-3)] _ assms(4)] by blast
qed

lemma paired_key:
  assumes "paired ws key" and "i < length ws"
  shows "ws ! i = ''*Red*'' \<longrightarrow> key ! i = ''Red''"
    and "ws ! i = ''*Blue*'' \<longrightarrow> key ! i = ''Blue''"
    and "ws ! i = ''*Assassin*'' \<longrightarrow> key ! i = ''Assassin''"
    and "ws ! i = ''*Civilian*'' \<longrightarrow>
           key ! i \<noteq> ''Red'' \<and> key ! i \<noteq> ''Blue'' \<and> key ! i \<noteq> ''Assassin''"
proof -
  have m: "ws ! i \<in> set markers \<longrightarrow> ws ! i = marker_of (key ! i)"
    using assms by (simp add: paired_def)
  show "ws ! i = ''*Red*'' \<longrightarrow> key ! i = ''Red''"
    using m marker_of_eq(1) [of "key ! i"] by (auto simp: markers_def)
  show "ws ! i = ''*Blue*'' \<longrightarrow> key ! i = ''Blue''"
    using m marker_of_eq(2) [of "key ! i"] by (auto simp: markers_def)
  show "ws ! i = ''*Assassin*'' \<longrightarrow> key ! i = ''Assassin''"
    using m marker_of_eq(3) [of "key ! i"] by (auto simp: markers_def)
  show "ws ! i = ''*Civilian*'' \<longrightarrow>
           key ! i \<noteq> ''Red'' \<and> key ! i \<noteq> ''Blue'' \<and> key ! i \<noteq> ''Assassin''"
    using m marker_of_eq(4) [of "key ! i"] by (auto simp: markers_def)
qed

lemma paired_bounds:
  assumes p: "paired ws key" and k: "shuffled_key key"
  shows "count_list ws ''*Red*'' \<le> 9" and "count_list ws ''*Blue*'' \<le> 8"
    and "count_list ws ''*Civilian*'' \<le> 7" and "count_list ws ''*Assassin*'' \<le> 1"
proof -
  have len: "length ws \<le> length key" using p by (simp add: paired_def)
  note c = shuffled_key_counts [OF k]
  show "count_list ws ''*Red*'' \<le> 9"
    using count_list_paired [OF len, of "''*Red*''" "\<lambda>k. k = ''Red''"] paired_key(1) [OF p] c(1)
    by simp
  show "count_list ws ''*Blue*'' \<le> 8"
    using count_list_paired [OF len, of "''*Blue*''" "\<lambda>k. k = ''Blue''"] paired_key(2) [OF p] c(2)
    by simp
  show "count_list ws ''*Assassin*'' \<le> 1"
    using count_list_paired [OF len, of "''*Assassin*''" "\<lambda>k. k = ''Assassin''"]
      paired_key(3) [OF p] c(3)
    by simp
  show "count_list ws ''*Civilian*'' \<le> 7"
    using count_list_paired [OF len, of "''*Civilian*''"
        "\<lambda>k. k \<noteq> ''Red'' \<and> k \<noteq> ''Blue'' \<and> k \<noteq> ''Assassin''"]
      paired_key(4) [OF p] c(4)
    by simp
qed

text \<open>
  Claim C2, as the specification states it, at two inputs. On the demonstration board red
  guesses a civilian and blue then guesses the Assassin: the phase is \<open>RED_WIN\<close> and no
  red cell is revealed, so a team's count at its quota is not the only condition that
  produces its win. And \<open>__init__\<close> accepts a word pool in which one word is the string
  "*Civilian*": when the seven civilians have been guessed eight cells show
  \<open>*Civilian*\<close>, one more than the quota.
\<close>

theorem win_without_quota_counterexample:
  "Game_init demo_pool demo_key False = Inr (demo_game False) \<and>
   reachable ascii_normalise (demo_game False) (demo_blue_blunder, RED_WIN, Outer) \<and>
   revealed demo_blue_blunder ''*Red*'' = 0 \<and>
   Game_init demo_pool_marked demo_key False = Inr demo_marked_game \<and>
   reachable ascii_normalise demo_marked_game (demo_marked_end, RED_WIN, Outer) \<and>
   revealed demo_marked_end ''*Civilian*'' = 8"
proof -
  have i1: "Game_init demo_pool demo_key False = Inr (demo_game False)" by code_simp
  have r1: "run_loop ascii_normalise (demo_game False) RED_TURN 0 [(''pets'', 1), (''pets'', 1)]
      [Some ''cat'', Some ''dog''] [] = Inr (demo_blue_blunder, RED_WIN, 2, [], [], [])"
    by code_simp
  have c1: "revealed demo_blue_blunder ''*Red*'' = 0" by code_simp
  have i2: "Game_init demo_pool_marked demo_key False = Inr demo_marked_game" by code_simp
  have r2: "run_loop ascii_normalise demo_marked_game RED_TURN 0 (replicate 8 (''hint'', 1))
      demo_marked_answers [] = Inr (demo_marked_end, RED_WIN, 8, [], [], [])"
    by code_simp
  have c2: "revealed demo_marked_end ''*Civilian*'' = 8" by code_simp
  show ?thesis
    using i1 run_reachable [OF r1] c1 i2 run_reachable [OF r2] c2 by (intro conjI)
qed

text \<open>
  Claim C2, amended. In a game set up by \<open>__init__\<close> on a board no cell of which shows a
  marker yet (the key grid a shuffle of 9 Red, 8 Blue, 7 Civilian and 1 Assassin), and
  with a normaliser that leaves no ASCII lower-case letter, as \<open>s.upper().strip()\<close> does:
  every state of a run has at most 9 cells showing \<open>*Red*\<close>, 8 showing \<open>*Blue*\<close>, 7
  showing \<open>*Civilian*\<close> and 1 showing \<open>*Assassin*\<close>; a team's count at its quota means
  the phase is that team's win; and a team's win phase means that the team's count is at
  its quota or that the last move is the other team's guess of the Assassin. In
  \<open>_accept_guess\<close>, for a cell of a team's colour, the result is that team's win exactly
  when the team's count after the reveal is its quota, and that team's turn otherwise.
\<close>

theorem revealed_within_quota:
  assumes "Game_init pool key single = Inr g0"
    and "unrevealed (take 25 pool)" and "shuffled_key key"
    and "upper_cased norm"
    and "reachable norm g0 (g, game_condition, l)"
  shows "revealed g ''*Red*'' \<le> 9 \<and> revealed g ''*Blue*'' \<le> 8 \<and>
         revealed g ''*Civilian*'' \<le> 7 \<and> revealed g ''*Assassin*'' \<le> 1 \<and>
         (revealed g ''*Red*'' = 9 \<longrightarrow> game_condition = RED_WIN) \<and>
         (revealed g ''*Blue*'' = 8 \<longrightarrow> game_condition = BLUE_WIN) \<and>
         (game_condition = RED_WIN \<longrightarrow> revealed g ''*Red*'' = 9 \<or> lost_by ''Blue'' g) \<and>
         (game_condition = BLUE_WIN \<longrightarrow> revealed g ''*Blue*'' = 8 \<or> lost_by ''Red'' g) \<and>
         (\<forall>i gc g1 res. accept_guess g i gc = Inr (g1, res) \<longrightarrow>
            (key_grid g ! i = ''Red'' \<longrightarrow>
               res = (if revealed g1 ''*Red*'' = 9 then RED_WIN else RED_TURN)) \<and>
            (key_grid g ! i = ''Blue'' \<longrightarrow>
               res = (if revealed g1 ''*Blue*'' = 8 then BLUE_WIN else BLUE_TURN)))"
proof -
  have inv: "invariant g0 (g, game_condition, l)"
    by (rule reachable_invariant [OF assms])
  have wi: "win_inv (g, game_condition, l)"
    by (rule reachable_win_inv [OF assms])
  have kg: "key_grid g = key" using inv Game_init_Inr(3) [OF assms(1)] by (auto simp: invariant_def)
  have p: "paired (words_on_board g) (key_grid g)" using inv by (auto simp: invariant_def)
  have sk: "shuffled_key (key_grid g)" using kg assms(3) by simp
  note b = paired_bounds [OF p sk]
  have n: "num_red_words g = 9" "num_blue_words g = 8" using inv by (auto simp: invariant_def)
  have w: "revealed g ''*Red*'' = 9 \<longrightarrow> game_condition = RED_WIN"
    "revealed g ''*Blue*'' = 8 \<longrightarrow> game_condition = BLUE_WIN"
    using inv by (auto simp: invariant_def)
  have v: "game_condition = RED_WIN \<longrightarrow> revealed g ''*Red*'' = 9 \<or> lost_by ''Blue'' g"
    "game_condition = BLUE_WIN \<longrightarrow> revealed g ''*Blue*'' = 8 \<or> lost_by ''Red'' g"
    using wi by (auto simp: win_inv_def)
  have acc: "(key_grid g ! i = ''Red'' \<longrightarrow>
               res = (if revealed g1 ''*Red*'' = 9 then RED_WIN else RED_TURN)) \<and>
            (key_grid g ! i = ''Blue'' \<longrightarrow>
               res = (if revealed g1 ''*Blue*'' = 8 then BLUE_WIN else BLUE_TURN))"
    if a: "accept_guess g i gc = Inr (g1, res)" for i gc g1 res
  proof -
    note r = accept_guess_Inr [OF a]
    have "paired (words_on_board g1) (key_grid g)"
      using r(3) paired_update [OF p r(2)] by simp
    then have b1: "revealed g1 ''*Red*'' \<le> 9" "revealed g1 ''*Blue*'' \<le> 8"
      using paired_bounds(1,2) [OF _ sk] by (simp_all add: revealed_def)
    show ?thesis using r(4,5) n b1 by (auto simp: revealed_def)
  qed
  have bb: "revealed g ''*Red*'' \<le> 9" "revealed g ''*Blue*'' \<le> 8"
    "revealed g ''*Civilian*'' \<le> 7" "revealed g ''*Assassin*'' \<le> 1"
    using b by (simp_all add: revealed_def)
  show ?thesis
  proof (intro conjI allI)
    show "revealed g ''*Red*'' \<le> 9" "revealed g ''*Blue*'' \<le> 8"
      "revealed g ''*Civilian*'' \<le> 7" "revealed g ''*Assassin*'' \<le> 1"
      by (rule bb)+
    show "revealed g ''*Red*'' = 9 \<longrightarrow> game_condition = RED_WIN" by (rule w(1))
    show "revealed g ''*Blue*'' = 8 \<longrightarrow> game_condition = BLUE_WIN" by (rule w(2))
    show "game_condition = RED_WIN \<longrightarrow> revealed g ''*Red*'' = 9 \<or> lost_by ''Blue'' g"
      by (rule v(1))
    show "game_condition = BLUE_WIN \<longrightarrow> revealed g ''*Blue*'' = 8 \<or> lost_by ''Red'' g"
      by (rule v(2))
    show "accept_guess g i gc = Inr (g1, res) \<longrightarrow>
            (key_grid g ! i = ''Red'' \<longrightarrow>
               res = (if revealed g1 ''*Red*'' = 9 then RED_WIN else RED_TURN)) \<and>
            (key_grid g ! i = ''Blue'' \<longrightarrow>
               res = (if revealed g1 ''*Blue*'' = 8 then BLUE_WIN else BLUE_TURN))"
      for i gc g1 res
      using acc by blast
  qed
qed

theorem revealed_within_quota_witness:
  "Game_init demo_pool demo_key False = Inr (demo_game False) \<and>
   unrevealed (take 25 demo_pool) \<and> shuffled_key demo_key \<and> upper_cased ascii_normalise \<and>
   reachable ascii_normalise (demo_game False) (demo_blue_blunder, RED_WIN, Outer) \<and>
   revealed demo_blue_blunder ''*Red*'' \<le> 9 \<and>
   revealed demo_blue_blunder ''*Blue*'' \<le> 8 \<and>
   revealed demo_blue_blunder ''*Civilian*'' \<le> 7 \<and>
   revealed demo_blue_blunder ''*Assassin*'' \<le> 1 \<and>
   revealed demo_blue_blunder ''*Civilian*'' = 1 \<and>
   revealed demo_blue_blunder ''*Assassin*'' = 1 \<and>
   lost_by ''Blue'' demo_blue_blunder"
proof -
  have i: "Game_init demo_pool demo_key False = Inr (demo_game False)" by code_simp
  have u: "unrevealed (take 25 demo_pool)" by code_simp
  have k: "shuffled_key demo_key" by code_simp
  have r1: "run_loop ascii_normalise (demo_game False) RED_TURN 0 [(''pets'', 1), (''pets'', 1)]
      [Some ''cat'', Some ''dog''] [] = Inr (demo_blue_blunder, RED_WIN, 2, [], [], [])"
    by code_simp
  have r: "reachable ascii_normalise (demo_game False) (demo_blue_blunder, RED_WIN, Outer)"
    by (rule run_reachable [OF r1])
  have c: "revealed demo_blue_blunder ''*Civilian*'' = 1"
    "revealed demo_blue_blunder ''*Assassin*'' = 1" "revealed demo_blue_blunder ''*Red*'' \<noteq> 9"
    by code_simp+
  note t = revealed_within_quota [OF i u k ascii_upper_cased r]
  have l: "lost_by ''Blue'' demo_blue_blunder" using t c(3) by blast
  show ?thesis using i u k ascii_upper_cased r c(1,2) l t by (simp only: simp_thms)
qed

end
